theory Spec2Isabelle
  imports Complex_Main
begin

section \<open>Board model\<close>

text \<open>
  The game of \<^verbatim>\<open>game.js\<close>: the human plays \<^verbatim>\<open>'X'\<close>, the computer \<^verbatim>\<open>'O'\<close>
  (\<open>MarkX\<close> and \<open>MarkO\<close>).
  A cell of the board array holds \<^verbatim>\<open>null\<close> (\<open>None\<close>) or a mark.
\<close>

datatype mark = MarkX | MarkO

type_synonym cell = "mark option"

type_synonym board = "cell list"

text \<open>\<^verbatim>\<open>Array(9).fill(null)\<close>\<close>

definition emptyBoard :: board where
  "emptyBoard = replicate 9 None"

text \<open>
  Reading \<^verbatim>\<open>board[index]\<close>: a JavaScript array read outside the array yields
  \<^verbatim>\<open>undefined\<close> (here the outer \<open>None\<close>) and does not throw.
\<close>

definition cellAt :: "board \<Rightarrow> nat \<Rightarrow> cell option" where
  "cellAt b i = (if i < length b then Some (b ! i) else None)"

definition winPatterns :: "nat list list" where
  "winPatterns =
     [[0, 1, 2], [3, 4, 5], [6, 7, 8],
      [0, 3, 6], [1, 4, 7], [2, 5, 8],
      [0, 4, 8], [2, 4, 6]]"

text \<open>\<^verbatim>\<open>winPatterns.some(pattern => pattern.every(index => board[index] === player))\<close>\<close>

definition checkWinner :: "mark \<Rightarrow> board \<Rightarrow> bool" where
  "checkWinner player b =
     list_ex (\<lambda>pattern. list_all (\<lambda>i. cellAt b i = Some (Some player)) pattern) winPatterns"

text \<open>
  \<^verbatim>\<open>board.map((cell, idx) => cell === null ? idx : null).filter(idx => idx !== null)\<close>:
  the indices of the \<^verbatim>\<open>null\<close> cells, ascending.
\<close>

definition emptyIndices :: "board \<Rightarrow> nat list" where
  "emptyIndices b =
     List.map_filter (\<lambda>(cell, idx). if cell = None then Some idx else None)
       (zip b [0..<length b])"

text \<open>\<^verbatim>\<open>board.every(cell => cell !== null)\<close>\<close>

definition boardFull :: "board \<Rightarrow> bool" where
  "boardFull b = list_all (\<lambda>cell. cell \<noteq> None) b"

section \<open>Search engine\<close>

text \<open>
  The objects returned by \<^verbatim>\<open>minimax\<close>: \<^verbatim>\<open>{ score }\<close> on a terminal board (no
  \<^verbatim>\<open>index\<close> property, here \<open>None\<close>) and \<^verbatim>\<open>{ index, score }\<close> otherwise.
\<close>

record result =
  score :: int
  index :: "nat option"

text \<open>
  Nothing in the source throws explicitly; the only exception a run can meet is the
  \<^verbatim>\<open>TypeError\<close> of reading a property of \<^verbatim>\<open>undefined\<close>.
\<close>

datatype error = TypeError

text \<open>
  The selection loops of \<^verbatim>\<open>minimax\<close>. \<^verbatim>\<open>bestScore\<close> starts at \<^verbatim>\<open>-Infinity\<close>
  (respectively \<^verbatim>\<open>Infinity\<close>), written \<open>None\<close>, which every score beats;
  \<^verbatim>\<open>bestMove\<close> starts \<^verbatim>\<open>undefined\<close>, written \<open>None\<close>. The loop state is the pair
  \<open>(bestScore, bestMove)\<close>; the comparison is strict, so an equal score later in the
  array does not replace the earlier one.
\<close>

definition maxStep :: "result list \<Rightarrow> int option \<times> nat option \<Rightarrow> nat \<Rightarrow> int option \<times> nat option" where
  "maxStep moves st i =
     (if (case fst st of None \<Rightarrow> True | Some bestScore \<Rightarrow> score (moves ! i) > bestScore)
      then (Some (score (moves ! i)), Some i) else st)"

definition minStep :: "result list \<Rightarrow> int option \<times> nat option \<Rightarrow> nat \<Rightarrow> int option \<times> nat option" where
  "minStep moves st i =
     (if (case fst st of None \<Rightarrow> True | Some bestScore \<Rightarrow> score (moves ! i) < bestScore)
      then (Some (score (moves ! i)), Some i) else st)"

definition bestMove :: "mark \<Rightarrow> result list \<Rightarrow> nat option" where
  "bestMove player moves =
     (if player = MarkO then snd (foldl (maxStep moves) (None, None) [0..<length moves])
      else snd (foldl (minStep moves) (None, None) [0..<length moves]))"

text \<open>
  \<^verbatim>\<open>moves[bestMove]\<close>: \<^verbatim>\<open>undefined\<close> (\<open>None\<close>) when \<^verbatim>\<open>bestMove\<close> is
  \<^verbatim>\<open>undefined\<close> or outside the array.
\<close>

definition movesAt :: "result list \<Rightarrow> nat option \<Rightarrow> result option" where
  "movesAt moves k =
     (case k of None \<Rightarrow> None
      | Some j \<Rightarrow> if j < length moves then Some (moves ! j) else None)"

text \<open>
  \<^verbatim>\<open>result.score\<close> on the value a recursive call returned: a \<^verbatim>\<open>TypeError\<close> when
  that value is \<^verbatim>\<open>undefined\<close>; an exception of the call itself propagates.
\<close>

fun scoreOf :: "error + result option \<Rightarrow> error + int" where
  "scoreOf (Inl e) = Inl e"
| "scoreOf (Inr None) = Inl TypeError"
| "scoreOf (Inr (Some res)) = Inr (score res)"

text \<open>
  The first loop of \<^verbatim>\<open>minimax\<close>: one \<^verbatim>\<open>move\<close> object per empty cell, in the order
  of \<^verbatim>\<open>emptyIndices\<close>; \<open>f i\<close> is the score found for cell \<open>i\<close>. An exception
  leaves the loop.
\<close>

fun evalMoves :: "(nat \<Rightarrow> error + int) \<Rightarrow> nat list \<Rightarrow> error + result list" where
  "evalMoves f [] = Inr []"
| "evalMoves f (i # rest) =
     (case f i of
        Inl e \<Rightarrow> Inl e
      | Inr sc \<Rightarrow>
          (case evalMoves f rest of
             Inl e \<Rightarrow> Inl e
           | Inr moves \<Rightarrow> Inr (\<lparr>score = sc, index = Some i\<rparr> # moves)))"

lemma evalMoves_cong [fundef_cong]:
  "xs = ys \<Longrightarrow> (\<And>i. i \<in> set ys \<Longrightarrow> f i = g i) \<Longrightarrow> evalMoves f xs = evalMoves g ys"
  by (induction ys arbitrary: xs) (auto split: sum.splits)

lemma emptyIndices_from:
  "List.map_filter (\<lambda>(cell, idx). if cell = None then Some idx else None) (zip b [n..<n + length b])
   = filter (\<lambda>i. b ! (i - n) = None) [n..<n + length b]"
proof (induction b arbitrary: n)
  case Nil
  show ?case by (simp add: List.map_filter_simps)
next
  case (Cons c cs)
  have len: "n + length (c # cs) = Suc n + length cs" by simp
  have "[n..<n + length (c # cs)] = n # [Suc n..<n + length (c # cs)]"
    by (rule upt_conv_Cons) simp
  then have eq: "[n..<n + length (c # cs)] = n # [Suc n..<Suc n + length cs]"
    by (simp only: len)
  have tl: "filter (\<lambda>i. (c # cs) ! (i - n) = None) [Suc n..<Suc n + length cs]
        = filter (\<lambda>i. cs ! (i - Suc n) = None) [Suc n..<Suc n + length cs]"
  proof (rule filter_cong [OF refl])
    fix i assume "i \<in> set [Suc n..<Suc n + length cs]"
    then have "i - n = Suc (i - Suc n)" by auto
    then show "((c # cs) ! (i - n) = None) = (cs ! (i - Suc n) = None)" by simp
  qed
  show ?case
    unfolding eq using Cons.IH [of "Suc n"] tl
    by (cases c) (simp_all add: List.map_filter_simps)
qed

lemma emptyIndices_filter:
  "emptyIndices b = filter (\<lambda>i. b ! i = None) [0..<length b]"
  using emptyIndices_from [of b 0] by (simp add: emptyIndices_def)

lemma emptyIndices_set:
  "i \<in> set (emptyIndices b) \<longleftrightarrow> i < length b \<and> b ! i = None"
  by (auto simp: emptyIndices_filter)

definition emptyCount :: "board \<Rightarrow> nat" where
  "emptyCount b = length (filter (\<lambda>c. c = None) b)"

lemma emptyCount_update:
  "i < length b \<Longrightarrow> b ! i = None \<Longrightarrow> emptyCount (b[i := Some p]) < emptyCount b"
  unfolding emptyCount_def
proof (induction b arbitrary: i)
  case Nil
  then show ?case by simp
next
  case (Cons c cs)
  then show ?case by (cases i) auto
qed

text \<open>
  \<^verbatim>\<open>minimax(board, player)\<close>. The source writes the mark into the array it was given
  and restores \<^verbatim>\<open>null\<close> after the recursive call, so on return the array is as it
  was; the model passes the updated board to the recursive call instead. The value is
  \<open>Inr (Some r)\<close> for a returned object, \<open>Inr None\<close> for a returned
  \<^verbatim>\<open>undefined\<close>, \<open>Inl e\<close> for an exception.
\<close>

function minimax :: "board \<Rightarrow> mark \<Rightarrow> error + result option" where
  "minimax b player =
     (if checkWinner MarkX b then Inr (Some \<lparr>score = - 10, index = None\<rparr>)
      else if checkWinner MarkO b then Inr (Some \<lparr>score = 10, index = None\<rparr>)
      else if length (emptyIndices b) = 0 then Inr (Some \<lparr>score = 0, index = None\<rparr>)
      else
        (case evalMoves
                (\<lambda>i. if player = MarkO then scoreOf (minimax (b[i := Some player]) MarkX)
                     else scoreOf (minimax (b[i := Some player]) MarkO))
                (emptyIndices b) of
           Inl e \<Rightarrow> Inl e
         | Inr moves \<Rightarrow> Inr (movesAt moves (bestMove player moves))))"
  by pat_completeness auto
termination
  by (relation "measure (\<lambda>(b, player). emptyCount b)")
     (auto simp: emptyIndices_set emptyCount_update)

declare minimax.simps [simp del]

section \<open>Stack and queue\<close>

text \<open>
  The classes \<^verbatim>\<open>Stack\<close> and \<^verbatim>\<open>Queue\<close> of \<^verbatim>\<open>data-structures.js\<close>, each an
  array \<^verbatim>\<open>items\<close>: the stack pushes and pops at the end of the array, the queue
  enqueues at the end and dequeues at the front. \<^verbatim>\<open>pop\<close>, \<^verbatim>\<open>peek\<close> and
  \<^verbatim>\<open>dequeue\<close> return \<^verbatim>\<open>null\<close> (\<open>None\<close>) on an empty container.
\<close>

definition stack_push :: "'a \<Rightarrow> 'a list \<Rightarrow> 'a list" where
  "stack_push element items = items @ [element]"

definition stack_isEmpty :: "'a list \<Rightarrow> bool" where
  "stack_isEmpty items = (length items = 0)"

definition stack_pop :: "'a list \<Rightarrow> 'a option \<times> 'a list" where
  "stack_pop items =
     (if stack_isEmpty items then (None, items) else (Some (last items), butlast items))"

definition stack_peek :: "'a list \<Rightarrow> 'a option" where
  "stack_peek items =
     (if stack_isEmpty items then None else Some (items ! (length items - 1)))"

definition queue_enqueue :: "'a \<Rightarrow> 'a list \<Rightarrow> 'a list" where
  "queue_enqueue element items = items @ [element]"

definition queue_isEmpty :: "'a list \<Rightarrow> bool" where
  "queue_isEmpty items = (length items = 0)"

definition queue_dequeue :: "'a list \<Rightarrow> 'a option \<times> 'a list" where
  "queue_dequeue items =
     (if queue_isEmpty items then (None, items) else (Some (hd items), tl items))"

lemma stack_peek_nonempty:
  "\<not> stack_isEmpty items \<Longrightarrow> stack_peek items = Some (last items)"
  by (cases items rule: rev_cases) (simp_all add: stack_peek_def stack_isEmpty_def)

section \<open>Game state\<close>

datatype difficulty = Easy | Medium | Hard

text \<open>
  The \<^verbatim>\<open>moveData\<close> object of \<^verbatim>\<open>makeMove\<close>. \<open>mv_index\<close> is \<open>None\<close> when
  \<^verbatim>\<open>makeMove\<close> was called with \<^verbatim>\<open>undefined\<close>; \<open>mv_board\<close> is the copy
  \<^verbatim>\<open>[...this.board]\<close>.
\<close>

record moveData =
  mv_index :: "nat option"
  mv_player :: mark
  mv_board :: board
  mv_aiRandomMovesUsed :: nat

text \<open>
  The fields of the \<^verbatim>\<open>TicTacToe\<close> object. \<open>moveHistory\<close> and \<open>redoHistory\<close>
  are the \<^verbatim>\<open>items\<close> arrays of the stack and of the queue. The last field is not a
  field of the class: it counts the \<^verbatim>\<open>computerMove\<close> callbacks that
  \<^verbatim>\<open>setTimeout\<close> has scheduled and the event loop has not run yet.
\<close>

record game =
  board :: board
  currentPlayer :: mark
  gameActive :: bool
  difficulty :: difficulty
  moveHistory :: "moveData list"
  redoHistory :: "moveData list"
  reviewMode :: bool
  allMoves :: "moveData list"
  reviewIndex :: int
  aiRandomMovesUsed :: nat
  pendingComputerMoves :: nat

text \<open>The constructor.\<close>

definition newGame :: game where
  "newGame =
     \<lparr>board = emptyBoard, currentPlayer = MarkX, gameActive = True, difficulty = Medium,
      moveHistory = [], redoHistory = [], reviewMode = False, allMoves = [],
      reviewIndex = - 1, aiRandomMovesUsed = 0, pendingComputerMoves = 0\<rparr>"

text \<open>
  \<^verbatim>\<open>this.board[index] = player\<close>. With \<^verbatim>\<open>index\<close> \<^verbatim>\<open>undefined\<close> the assignment
  sets a property that is no array element, so no cell changes. With an index at or
  past the end the JavaScript array would grow, where the list stays as it is; every
  caller passes the index of an existing cell (lemmas \<open>handleCellClick_index\<close> and
  \<open>chooseMove_index\<close>), so the write never extends the array.
\<close>

definition setCell :: "board \<Rightarrow> nat option \<Rightarrow> mark \<Rightarrow> board" where
  "setCell b idx player = (case idx of None \<Rightarrow> b | Some i \<Rightarrow> b[i := Some player])"

text \<open>\<^verbatim>\<open>makeMove(index, player)\<close>\<close>

definition makeMove :: "nat option \<Rightarrow> mark \<Rightarrow> game \<Rightarrow> game" where
  "makeMove idx player s =
     (let b = setCell (board s) idx player;
          moveData = \<lparr>mv_index = idx, mv_player = player, mv_board = b,
                      mv_aiRandomMovesUsed = aiRandomMovesUsed s\<rparr>;
          s1 = s\<lparr>board := b,
                 allMoves := allMoves s @ [moveData],
                 moveHistory := stack_push moveData (moveHistory s),
                 redoHistory := []\<rparr>
      in if checkWinner player b then s1\<lparr>gameActive := False\<rparr>
         else if boardFull b then s1\<lparr>gameActive := False\<rparr>
         else s1\<lparr>currentPlayer := (if currentPlayer s = MarkX then MarkO else MarkX)\<rparr>)"

text \<open>
  \<^verbatim>\<open>this.board[index]\<close> for the integer that \<^verbatim>\<open>parseInt\<close> returned: outside the
  array the read yields \<^verbatim>\<open>undefined\<close> (so does the read at \<^verbatim>\<open>NaN\<close>), which is
  \<^verbatim>\<open>!== null\<close>.
\<close>

definition cellAtInt :: "board \<Rightarrow> int \<Rightarrow> cell option" where
  "cellAtInt b i = (if i < 0 then None else cellAt b (nat i))"

text \<open>
  \<^verbatim>\<open>handleCellClick(e)\<close>, with \<open>idx\<close> the parsed \<^verbatim>\<open>data-index\<close> of the cell.
  \<^verbatim>\<open>setTimeout(() => this.computerMove(), 500)\<close> adds one pending callback.
\<close>

definition handleCellClick :: "int \<Rightarrow> game \<Rightarrow> game" where
  "handleCellClick idx s =
     (if reviewMode s \<or> \<not> gameActive s \<or> cellAtInt (board s) idx \<noteq> Some None
         \<or> currentPlayer s \<noteq> MarkX
      then s
      else
        (let s1 = makeMove (Some (nat idx)) MarkX s
         in if gameActive s1 \<and> currentPlayer s1 = MarkO
            then s1\<lparr>pendingComputerMoves := pendingComputerMoves s1 + 1\<rparr>
            else s1))"

text \<open>
  The loop of \<^verbatim>\<open>findWinningMove\<close> over \<^verbatim>\<open>emptyIndices\<close>: the mark is written, the
  win is checked and the cell is set back to \<^verbatim>\<open>null\<close>; the result is the first
  index that wins, or \<^verbatim>\<open>-1\<close>.
\<close>

fun findWinningLoop :: "mark \<Rightarrow> board \<Rightarrow> nat list \<Rightarrow> int" where
  "findWinningLoop player b [] = - 1"
| "findWinningLoop player b (i # rest) =
     (if checkWinner player (b[i := Some player]) then int i
      else findWinningLoop player b rest)"

definition findWinningMove :: "mark \<Rightarrow> board \<Rightarrow> int" where
  "findWinningMove player b = findWinningLoop player b (emptyIndices b)"

text \<open>
  \<^verbatim>\<open>emptyIndices[Math.floor(Math.random() * emptyIndices.length)]\<close>, with \<open>r\<close> the
  value of \<^verbatim>\<open>Math.random()\<close>, a number in \<open>[0, 1)\<close>: \<^verbatim>\<open>undefined\<close> (\<open>None\<close>)
  when the array is empty. The product is taken in the reals, where the code takes it in
  doubles: for a draw whose product lies within rounding of an integer the two can select
  neighbouring elements of the array, and both always select an element of it.
\<close>

definition randomIndex :: "real \<Rightarrow> nat list \<Rightarrow> nat option" where
  "randomIndex r xs =
     (let k = nat \<lfloor>r * real (length xs)\<rfloor>
      in if k < length xs then Some (xs ! k) else None)"

text \<open>
  \<^verbatim>\<open>this.minimax(this.board, 'O').index\<close>: the property read throws when the call
  returned \<^verbatim>\<open>undefined\<close>, and is \<^verbatim>\<open>undefined\<close> when the object has no index.
\<close>

fun indexOf :: "error + result option \<Rightarrow> error + nat option" where
  "indexOf (Inl e) = Inl e"
| "indexOf (Inr None) = Inl TypeError"
| "indexOf (Inr (Some res)) = Inr (index res)"

text \<open>
  The part of \<^verbatim>\<open>computerMove\<close> that assigns \<^verbatim>\<open>move\<close>: the value is the move and
  the counter \<^verbatim>\<open>aiRandomMovesUsed\<close> after the choice.
\<close>

definition chooseMove :: "real \<Rightarrow> game \<Rightarrow> error + (nat option \<times> nat)" where
  "chooseMove r s =
     (let emptyIdx = emptyIndices (board s);
          aiWinMove = findWinningMove MarkO (board s);
          search = (case indexOf (minimax (board s) MarkO) of
                      Inl e \<Rightarrow> Inl e
                    | Inr move \<Rightarrow> Inr (move, aiRandomMovesUsed s))
      in if aiWinMove \<noteq> - 1 then Inr (Some (nat aiWinMove), aiRandomMovesUsed s)
         else if findWinningMove MarkX (board s) \<noteq> - 1
           then Inr (Some (nat (findWinningMove MarkX (board s))), aiRandomMovesUsed s)
         else if difficulty s = Hard then search
         else if difficulty s = Medium then
           (if aiRandomMovesUsed s < 1
            then Inr (randomIndex r emptyIdx, aiRandomMovesUsed s + 1)
            else search)
         else
           (if aiRandomMovesUsed s < 2
            then Inr (randomIndex r emptyIdx, aiRandomMovesUsed s + 1)
            else search))"

text \<open>
  \<^verbatim>\<open>computerMove()\<close>, with \<open>r\<close> the value \<^verbatim>\<open>Math.random()\<close> would return. An
  exception leaves the function before it has changed anything.
\<close>

definition computerMove :: "real \<Rightarrow> game \<Rightarrow> error + game" where
  "computerMove r s =
     (if \<not> gameActive s then Inr s
      else
        (case chooseMove r s of
           Inl e \<Rightarrow> Inl e
         | Inr (move, used) \<Rightarrow> Inr (makeMove move MarkO (s\<lparr>aiRandomMovesUsed := used\<rparr>))))"

text \<open>\<^verbatim>\<open>displayReviewMove()\<close>\<close>

definition displayReviewMove :: "game \<Rightarrow> game" where
  "displayReviewMove s =
     (if reviewIndex s \<ge> 0 \<and> reviewIndex s < int (length (allMoves s))
      then s\<lparr>board := mv_board (allMoves s ! nat (reviewIndex s))\<rparr>
      else s\<lparr>board := emptyBoard\<rparr>)"

text \<open>
  \<^verbatim>\<open>moveBackward()\<close>. In the branch where the stack is not empty \<^verbatim>\<open>peek()\<close>
  returns its last element (lemma \<open>stack_peek_nonempty\<close>), so the case \<open>None\<close>
  there does not occur.
\<close>

definition moveBackward :: "game \<Rightarrow> game" where
  "moveBackward s =
     (if reviewMode s then
        (if reviewIndex s > 0
         then displayReviewMove (s\<lparr>reviewIndex := reviewIndex s - 1\<rparr>)
         else s)
      else
        (case stack_pop (moveHistory s) of
           (None, items) \<Rightarrow> s
         | (Some lastMove, items) \<Rightarrow>
             (let s1 = s\<lparr>moveHistory := items,
                          redoHistory := queue_enqueue lastMove (redoHistory s),
                          allMoves := butlast (allMoves s)\<rparr>;
                  s2 = (if stack_isEmpty items
                        then s1\<lparr>board := emptyBoard, currentPlayer := MarkX,
                                aiRandomMovesUsed := 0\<rparr>
                        else
                          (case stack_peek items of
                             None \<Rightarrow> s1
                           | Some prevMove \<Rightarrow>
                               s1\<lparr>board := mv_board prevMove,
                                  currentPlayer :=
                                    (if mv_player prevMove = MarkX then MarkO else MarkX),
                                  aiRandomMovesUsed := mv_aiRandomMovesUsed prevMove\<rparr>))
              in s2\<lparr>gameActive := True\<rparr>)))"

text \<open>\<^verbatim>\<open>moveForward()\<close>\<close>

definition moveForward :: "game \<Rightarrow> game" where
  "moveForward s =
     (if reviewMode s then
        (if reviewIndex s < int (length (allMoves s)) - 1
         then displayReviewMove (s\<lparr>reviewIndex := reviewIndex s + 1\<rparr>)
         else s)
      else
        (case queue_dequeue (redoHistory s) of
           (None, items) \<Rightarrow> s
         | (Some nextMove, items) \<Rightarrow>
             (let s1 = s\<lparr>redoHistory := items,
                          board := mv_board nextMove,
                          currentPlayer :=
                            (if mv_player nextMove = MarkX then MarkO else MarkX),
                          aiRandomMovesUsed := mv_aiRandomMovesUsed nextMove,
                          moveHistory := stack_push nextMove (moveHistory s),
                          allMoves := allMoves s @ [nextMove]\<rparr>
              in if checkWinner MarkX (board s1) \<or> checkWinner MarkO (board s1)
                    \<or> boardFull (board s1)
                 then s1\<lparr>gameActive := False\<rparr>
                 else s1)))"

text \<open>\<^verbatim>\<open>startReview()\<close>\<close>

definition startReview :: "game \<Rightarrow> game" where
  "startReview s =
     (if length (allMoves s) = 0 then s
      else s\<lparr>reviewMode := True, reviewIndex := - 1, board := emptyBoard\<rparr>)"

text \<open>\<^verbatim>\<open>resetGame()\<close>: no pending callback is cancelled.\<close>

definition resetGame :: "game \<Rightarrow> game" where
  "resetGame s =
     s\<lparr>board := emptyBoard, currentPlayer := MarkX, gameActive := True,
       moveHistory := [], redoHistory := [], allMoves := [],
       reviewMode := False, reviewIndex := - 1, aiRandomMovesUsed := 0\<rparr>"

text \<open>\<^verbatim>\<open>setDifficulty(e)\<close>, with \<open>d\<close> the \<^verbatim>\<open>data-difficulty\<close> of the button.\<close>

definition setDifficulty :: "difficulty \<Rightarrow> game \<Rightarrow> game" where
  "setDifficulty d s = resetGame (s\<lparr>difficulty := d\<rparr>)"

text \<open>
  What \<^verbatim>\<open>updateNavigationButtons()\<close> assigns to \<^verbatim>\<open>backwardBtn.disabled\<close> and
  \<^verbatim>\<open>forwardBtn.disabled\<close>.
\<close>

definition backwardBtnDisabled :: "game \<Rightarrow> bool" where
  "backwardBtnDisabled s =
     (if reviewMode s then reviewIndex s \<le> - 1 else stack_isEmpty (moveHistory s))"

definition forwardBtnDisabled :: "game \<Rightarrow> bool" where
  "forwardBtnDisabled s =
     (if reviewMode s then reviewIndex s \<ge> int (length (allMoves s)) - 1
      else queue_isEmpty (redoHistory s))"

section \<open>Events\<close>

text \<open>
  The program is single-threaded: every handler runs to completion, and the state
  changes only through the handlers that \<^verbatim>\<open>setupEventListeners\<close> registers and
  through the callbacks that \<^verbatim>\<open>handleCellClick\<close> schedules. A scheduled callback
  runs at some later turn of the event loop, after any number of other events.
\<close>

datatype event =
    CellClick int
  | ComputerMoveFires real
  | BackwardBtn
  | ForwardBtn
  | ReviewBtn
  | ResetBtn
  | DifficultyBtn difficulty

text \<open>
  A pending \<^verbatim>\<open>computerMove\<close> callback runs: an exception ends the callback and
  leaves the state as it was.
\<close>

definition fireComputerMove :: "real \<Rightarrow> game \<Rightarrow> game" where
  "fireComputerMove r s =
     (let s1 = s\<lparr>pendingComputerMoves := pendingComputerMoves s - 1\<rparr>
      in case computerMove r s1 of Inl e \<Rightarrow> s1 | Inr s2 \<Rightarrow> s2)"

fun handleEvent :: "event \<Rightarrow> game \<Rightarrow> game" where
  "handleEvent (CellClick i) s = handleCellClick i s"
| "handleEvent (ComputerMoveFires r) s = fireComputerMove r s"
| "handleEvent BackwardBtn s = moveBackward s"
| "handleEvent ForwardBtn s = moveForward s"
| "handleEvent ReviewBtn s = startReview s"
| "handleEvent ResetBtn s = resetGame s"
| "handleEvent (DifficultyBtn d) s = setDifficulty d s"

text \<open>
  A callback can run only when one is pending, and \<^verbatim>\<open>Math.random()\<close> is in
  \<open>[0, 1)\<close>; the other events can occur at any time.
\<close>

fun enabled :: "event \<Rightarrow> game \<Rightarrow> bool" where
  "enabled (ComputerMoveFires r) s = (0 < pendingComputerMoves s \<and> 0 \<le> r \<and> r < 1)"
| "enabled e s = True"

inductive reachable :: "game \<Rightarrow> bool" where
  reachable_init: "reachable newGame"
| reachable_step: "reachable s \<Longrightarrow> enabled e s \<Longrightarrow> reachable (handleEvent e s)"

section \<open>History invariants\<close>

fun runEvents :: "event list \<Rightarrow> game \<Rightarrow> game option" where
  "runEvents [] s = Some s"
| "runEvents (e # es) s = (if enabled e s then runEvents es (handleEvent e s) else None)"

lemma runEvents_reachable:
  "reachable s \<Longrightarrow> runEvents es s = Some t \<Longrightarrow> reachable t"
proof (induction es arbitrary: s)
  case Nil
  then show ?case by simp
next
  case (Cons e es)
  then show ?case
    by (auto split: if_splits intro: reachable_step)
qed

lemma length_setCell [simp]: "length (setCell b idx player) = length b"
  by (cases idx) (simp_all add: setCell_def)

definition historyOk :: "game \<Rightarrow> bool" where
  "historyOk s \<longleftrightarrow> moveHistory s = allMoves s"

lemma makeMove_fields:
  "allMoves (makeMove idx player s) =
     allMoves s @ [\<lparr>mv_index = idx, mv_player = player, mv_board = setCell (board s) idx player,
                    mv_aiRandomMovesUsed = aiRandomMovesUsed s\<rparr>]"
  "moveHistory (makeMove idx player s) =
     moveHistory s @ [\<lparr>mv_index = idx, mv_player = player, mv_board = setCell (board s) idx player,
                    mv_aiRandomMovesUsed = aiRandomMovesUsed s\<rparr>]"
  "redoHistory (makeMove idx player s) = []"
  "board (makeMove idx player s) = setCell (board s) idx player"
  "reviewMode (makeMove idx player s) = reviewMode s"
  "reviewIndex (makeMove idx player s) = reviewIndex s"
  "difficulty (makeMove idx player s) = difficulty s"
  "aiRandomMovesUsed (makeMove idx player s) = aiRandomMovesUsed s"
  "pendingComputerMoves (makeMove idx player s) = pendingComputerMoves s"
  by (simp_all add: makeMove_def Let_def stack_push_def)

lemma historyOk_makeMove: "historyOk s \<Longrightarrow> historyOk (makeMove idx player s)"
  by (simp add: historyOk_def makeMove_fields)

lemma historyOk_handleCellClick: "historyOk s \<Longrightarrow> historyOk (handleCellClick i s)"
  using historyOk_makeMove [of s "Some (nat i)" MarkX]
  by (auto simp: handleCellClick_def Let_def historyOk_def)

lemma historyOk_computerMove:
  "historyOk s \<Longrightarrow> computerMove r s = Inr t \<Longrightarrow> historyOk t"
proof -
  assume h: "historyOk s" and c: "computerMove r s = Inr t"
  have upd: "historyOk (s\<lparr>aiRandomMovesUsed := u\<rparr>)" for u
    using h by (simp add: historyOk_def)
  show ?thesis
    using c h historyOk_makeMove [OF upd]
    by (auto simp: computerMove_def split: if_splits sum.splits prod.splits)
qed

lemma historyOk_fireComputerMove: "historyOk s \<Longrightarrow> historyOk (fireComputerMove r s)"
proof -
  assume h: "historyOk s"
  have h1: "historyOk (s\<lparr>pendingComputerMoves := pendingComputerMoves s - 1\<rparr>)"
    using h by (simp add: historyOk_def)
  show ?thesis
    using h1 historyOk_computerMove [OF h1]
    by (auto simp: fireComputerMove_def Let_def split: sum.splits)
qed

lemma historyOk_displayReviewMove: "historyOk s \<Longrightarrow> historyOk (displayReviewMove s)"
  by (simp add: historyOk_def displayReviewMove_def)

lemma historyOk_moveBackward: "historyOk s \<Longrightarrow> historyOk (moveBackward s)"
proof -
  assume h: "historyOk s"
  have r: "historyOk (s\<lparr>reviewIndex := k\<rparr>)" for k
    using h by (simp add: historyOk_def)
  show ?thesis
    using h historyOk_displayReviewMove [OF r]
    by (auto simp: moveBackward_def historyOk_def stack_pop_def Let_def
             split: if_splits option.splits prod.splits)
qed

lemma historyOk_moveForward: "historyOk s \<Longrightarrow> historyOk (moveForward s)"
proof -
  assume h: "historyOk s"
  have r: "historyOk (s\<lparr>reviewIndex := k\<rparr>)" for k
    using h by (simp add: historyOk_def)
  show ?thesis
    using h historyOk_displayReviewMove [OF r]
    by (auto simp: moveForward_def historyOk_def queue_dequeue_def stack_push_def Let_def
             split: if_splits option.splits prod.splits)
qed

lemma historyOk_handleEvent: "historyOk s \<Longrightarrow> historyOk (handleEvent e s)"
proof (cases e)
  case (CellClick i)
  assume "historyOk s"
  then show ?thesis using CellClick by (simp add: historyOk_handleCellClick)
next
  case (ComputerMoveFires r)
  assume "historyOk s"
  then show ?thesis using ComputerMoveFires by (simp add: historyOk_fireComputerMove)
next
  case BackwardBtn
  assume "historyOk s"
  then show ?thesis using BackwardBtn by (simp add: historyOk_moveBackward)
next
  case ForwardBtn
  assume "historyOk s"
  then show ?thesis using ForwardBtn by (simp add: historyOk_moveForward)
next
  case ReviewBtn
  assume "historyOk s"
  then show ?thesis using ReviewBtn by (simp add: historyOk_def startReview_def)
next
  case ResetBtn
  then show ?thesis by (simp add: historyOk_def resetGame_def)
next
  case (DifficultyBtn d)
  then show ?thesis by (simp add: historyOk_def resetGame_def setDifficulty_def)
qed

lemma reachable_historyOk: "reachable s \<Longrightarrow> historyOk s"
proof (induction rule: reachable.induct)
  case reachable_init
  show ?case by (simp add: historyOk_def newGame_def)
next
  case (reachable_step s e)
  then show ?case by (simp add: historyOk_handleEvent)
qed

section \<open>Immediate wins and blocks\<close>

definition winningCell :: "mark \<Rightarrow> board \<Rightarrow> nat \<Rightarrow> bool" where
  "winningCell player b i \<longleftrightarrow> i \<in> set (emptyIndices b) \<and> checkWinner player (b[i := Some player])"

lemma emptyIndices_sorted: "sorted (emptyIndices b)"
  unfolding emptyIndices_filter by (rule sorted_wrt_filter) simp

lemma emptyIndices_distinct: "distinct (emptyIndices b)"
  by (simp add: emptyIndices_filter)

lemma findWinningLoop_none:
  "findWinningLoop player b xs = - 1 \<longleftrightarrow> (\<forall>i \<in> set xs. \<not> checkWinner player (b[i := Some player]))"
  by (induction xs) auto

lemma findWinningLoop_first:
  "sorted xs \<Longrightarrow> k \<in> set xs \<Longrightarrow> checkWinner player (b[k := Some player]) \<Longrightarrow>
   (\<forall>j \<in> set xs. j < k \<longrightarrow> \<not> checkWinner player (b[j := Some player])) \<Longrightarrow>
   findWinningLoop player b xs = int k"
proof (induction xs)
  case Nil
  then show ?case by simp
next
  case (Cons x xs)
  show ?case
  proof (cases "x = k")
    case True
    with Cons.prems show ?thesis by simp
  next
    case False
    with Cons.prems have kin: "k \<in> set xs" by simp
    from Cons.prems(1) kin have "x \<le> k" by auto
    with False have "x < k" by simp
    with Cons.prems(4) have nx: "\<not> checkWinner player (b[x := Some player])" by simp
    from Cons.prems have "findWinningLoop player b xs = int k"
      by (intro Cons.IH) (use kin in auto)
    with nx show ?thesis by simp
  qed
qed

lemma findWinningMove_none:
  "findWinningMove player b = - 1 \<longleftrightarrow> (\<forall>i. \<not> winningCell player b i)"
  by (auto simp: findWinningMove_def findWinningLoop_none winningCell_def)

lemma findWinningMove_first:
  "winningCell player b k \<Longrightarrow> (\<forall>j < k. \<not> winningCell player b j) \<Longrightarrow>
   findWinningMove player b = int k"
  unfolding findWinningMove_def winningCell_def
  by (rule findWinningLoop_first) (auto simp: emptyIndices_sorted)

lemma findWinningMove_cases:
  "findWinningMove player b = - 1 \<or>
   (\<exists>k. findWinningMove player b = int k \<and> winningCell player b k \<and> (\<forall>j < k. \<not> winningCell player b j))"
proof (cases "\<exists>i. winningCell player b i")
  case False
  then show ?thesis by (simp add: findWinningMove_none)
next
  case True
  define k where "k = (LEAST i. winningCell player b i)"
  from True have w: "winningCell player b k"
    unfolding k_def by (auto intro: LeastI)
  have l: "\<forall>j < k. \<not> winningCell player b j"
    unfolding k_def using not_less_Least by blast
  from findWinningMove_first [OF w l] w l show ?thesis by blast
qed

text \<open>The move that the difficulty policy selects when there is no win and no block.\<close>

definition searchMove :: "game \<Rightarrow> error + (nat option \<times> nat)" where
  "searchMove s =
     (case indexOf (minimax (board s) MarkO) of
        Inl e \<Rightarrow> Inl e
      | Inr move \<Rightarrow> Inr (move, aiRandomMovesUsed s))"

definition randomMove :: "real \<Rightarrow> game \<Rightarrow> error + (nat option \<times> nat)" where
  "randomMove r s = Inr (randomIndex r (emptyIndices (board s)), aiRandomMovesUsed s + 1)"

definition randomBudget :: "difficulty \<Rightarrow> nat" where
  "randomBudget d = (case d of Hard \<Rightarrow> 0 | Medium \<Rightarrow> 1 | Easy \<Rightarrow> 2)"

definition difficultyPolicy :: "real \<Rightarrow> game \<Rightarrow> error + (nat option \<times> nat)" where
  "difficultyPolicy r s =
     (if aiRandomMovesUsed s < randomBudget (difficulty s) then randomMove r s else searchMove s)"

lemma chooseMove_win:
  "winningCell MarkO (board s) k \<Longrightarrow> (\<forall>j < k. \<not> winningCell MarkO (board s) j) \<Longrightarrow>
   chooseMove r s = Inr (Some k, aiRandomMovesUsed s)"
  using findWinningMove_first [of MarkO "board s" k]
  by (simp add: chooseMove_def Let_def)

lemma chooseMove_block:
  "(\<forall>j. \<not> winningCell MarkO (board s) j) \<Longrightarrow>
   winningCell MarkX (board s) k \<Longrightarrow> (\<forall>j < k. \<not> winningCell MarkX (board s) j) \<Longrightarrow>
   chooseMove r s = Inr (Some k, aiRandomMovesUsed s)"
  using findWinningMove_first [of MarkX "board s" k] findWinningMove_none [of MarkO "board s"]
  by (simp add: chooseMove_def Let_def)

lemma chooseMove_policy:
  "(\<forall>j. \<not> winningCell MarkO (board s) j) \<Longrightarrow> (\<forall>j. \<not> winningCell MarkX (board s) j) \<Longrightarrow>
   chooseMove r s = difficultyPolicy r s"
  using findWinningMove_none [of MarkX "board s"] findWinningMove_none [of MarkO "board s"]
  by (cases "difficulty s")
     (simp_all add: chooseMove_def Let_def difficultyPolicy_def randomBudget_def
        searchMove_def randomMove_def)

section \<open>The search returns an optimal move\<close>

definition opponent :: "mark \<Rightarrow> mark" where
  "opponent p = (if p = MarkO then MarkX else MarkO)"

text \<open>The score of the object that \<^verbatim>\<open>minimax\<close> returns.\<close>

definition mscore :: "board \<Rightarrow> mark \<Rightarrow> int" where
  "mscore b p = (case minimax b p of Inr (Some res) \<Rightarrow> score res | _ \<Rightarrow> 0)"

text \<open>The score of the recursive call after \<open>p\<close> has taken cell \<open>i\<close>.\<close>

definition childScore :: "board \<Rightarrow> mark \<Rightarrow> nat \<Rightarrow> int" where
  "childScore b p i = mscore (b[i := Some p]) (opponent p)"

text \<open>\<open>betterFor p x y\<close>: the score \<open>x\<close> is strictly better than \<open>y\<close> for \<open>p\<close>.\<close>

definition betterFor :: "mark \<Rightarrow> int \<Rightarrow> int \<Rightarrow> bool" where
  "betterFor p x y = (if p = MarkO then x > y else x < y)"

lemma evalMoves_Inr:
  "(\<And>i. i \<in> set xs \<Longrightarrow> f i = Inr (g i)) \<Longrightarrow>
   evalMoves f xs = Inr (map (\<lambda>i. \<lparr>score = g i, index = Some i\<rparr>) xs)"
  by (induction xs) simp_all

lemma maxStep_fold:
  "0 < n \<Longrightarrow> n \<le> length moves \<Longrightarrow>
   \<exists>k<n. foldl (maxStep moves) (None, None) [0..<n] = (Some (score (moves ! k)), Some k)
     \<and> (\<forall>j<n. score (moves ! j) \<le> score (moves ! k))
     \<and> (\<forall>j<k. score (moves ! j) < score (moves ! k))"
proof (induction n)
  case 0
  then show ?case by simp
next
  case (Suc m)
  show ?case
  proof (cases "m = 0")
    case True
    then show ?thesis by (simp add: maxStep_def)
  next
    case False
    with Suc obtain k where k: "k < m"
      and f: "foldl (maxStep moves) (None, None) [0..<m] = (Some (score (moves ! k)), Some k)"
      and le: "\<forall>j<m. score (moves ! j) \<le> score (moves ! k)"
      and lt: "\<forall>j<k. score (moves ! j) < score (moves ! k)"
      by auto
    show ?thesis
    proof (cases "score (moves ! m) > score (moves ! k)")
      case True
      have "foldl (maxStep moves) (None, None) [0..<Suc m] = (Some (score (moves ! m)), Some m)"
        using f True by (simp add: maxStep_def)
      moreover have "\<forall>j<Suc m. score (moves ! j) \<le> score (moves ! m)"
        using le True by (auto simp: less_Suc_eq) 
      moreover have "\<forall>j<m. score (moves ! j) < score (moves ! m)"
        using le True by fastforce
      ultimately show ?thesis by blast
    next
      case False
      have "foldl (maxStep moves) (None, None) [0..<Suc m] = (Some (score (moves ! k)), Some k)"
        using f False by (simp add: maxStep_def)
      moreover have "\<forall>j<Suc m. score (moves ! j) \<le> score (moves ! k)"
        using le False by (auto simp: less_Suc_eq)
      ultimately show ?thesis using k lt by (intro exI [of _ k]) simp
    qed
  qed
qed

lemma minStep_fold:
  "0 < n \<Longrightarrow> n \<le> length moves \<Longrightarrow>
   \<exists>k<n. foldl (minStep moves) (None, None) [0..<n] = (Some (score (moves ! k)), Some k)
     \<and> (\<forall>j<n. score (moves ! k) \<le> score (moves ! j))
     \<and> (\<forall>j<k. score (moves ! k) < score (moves ! j))"
proof (induction n)
  case 0
  then show ?case by simp
next
  case (Suc m)
  show ?case
  proof (cases "m = 0")
    case True
    then show ?thesis by (simp add: minStep_def)
  next
    case False
    with Suc obtain k where k: "k < m"
      and f: "foldl (minStep moves) (None, None) [0..<m] = (Some (score (moves ! k)), Some k)"
      and le: "\<forall>j<m. score (moves ! k) \<le> score (moves ! j)"
      and lt: "\<forall>j<k. score (moves ! k) < score (moves ! j)"
      by auto
    show ?thesis
    proof (cases "score (moves ! m) < score (moves ! k)")
      case True
      have "foldl (minStep moves) (None, None) [0..<Suc m] = (Some (score (moves ! m)), Some m)"
        using f True by (simp add: minStep_def)
      moreover have "\<forall>j<Suc m. score (moves ! m) \<le> score (moves ! j)"
        using le True by (auto simp: less_Suc_eq)
      moreover have "\<forall>j<m. score (moves ! m) < score (moves ! j)"
        using le True by fastforce
      ultimately show ?thesis by blast
    next
      case False
      have "foldl (minStep moves) (None, None) [0..<Suc m] = (Some (score (moves ! k)), Some k)"
        using f False by (simp add: minStep_def)
      moreover have "\<forall>j<Suc m. score (moves ! k) \<le> score (moves ! j)"
        using le False by (auto simp: less_Suc_eq)
      ultimately show ?thesis using k lt by (intro exI [of _ k]) simp
    qed
  qed
qed

lemma bestMove_first_best:
  "moves \<noteq> [] \<Longrightarrow>
   \<exists>k<length moves. bestMove p moves = Some k
     \<and> (\<forall>j<length moves. \<not> betterFor p (score (moves ! j)) (score (moves ! k)))
     \<and> (\<forall>j<k. betterFor p (score (moves ! k)) (score (moves ! j)))"
proof (cases "p = MarkO")
  case True
  assume "moves \<noteq> []"
  then have "0 < length moves" by simp
  from maxStep_fold [OF this order_refl] show ?thesis
    using True by (fastforce simp: bestMove_def betterFor_def)
next
  case False
  assume "moves \<noteq> []"
  then have "0 < length moves" by simp
  from minStep_fold [OF this order_refl] show ?thesis
    using False by (fastforce simp: bestMove_def betterFor_def)
qed


lemma emptyIndices_Nil_boardFull: "emptyIndices b = [] \<longleftrightarrow> boardFull b"
  by (auto simp: emptyIndices_filter boardFull_def filter_empty_conv list_all_iff in_set_conv_nth)

lemma minimax_terminal:
  "checkWinner MarkX b \<Longrightarrow> minimax b p = Inr (Some \<lparr>score = - 10, index = None\<rparr>)"
  "\<not> checkWinner MarkX b \<Longrightarrow> checkWinner MarkO b \<Longrightarrow>
     minimax b p = Inr (Some \<lparr>score = 10, index = None\<rparr>)"
  "\<not> checkWinner MarkX b \<Longrightarrow> \<not> checkWinner MarkO b \<Longrightarrow> emptyIndices b = [] \<Longrightarrow>
     minimax b p = Inr (Some \<lparr>score = 0, index = None\<rparr>)"
  by (simp_all add: minimax.simps [of b p])

lemma minimax_unfold:
  assumes nt: "\<not> checkWinner MarkX b" "\<not> checkWinner MarkO b" "emptyIndices b \<noteq> []"
    and tot: "\<And>i. i \<in> set (emptyIndices b) \<Longrightarrow>
                \<exists>res. minimax (b[i := Some p]) (opponent p) = Inr (Some res)"
  shows "\<exists>k \<in> set (emptyIndices b).
           minimax b p = Inr (Some \<lparr>score = childScore b p k, index = Some k\<rparr>)
           \<and> (\<forall>j \<in> set (emptyIndices b). \<not> betterFor p (childScore b p j) (childScore b p k))
           \<and> (\<forall>j \<in> set (emptyIndices b). j < k \<longrightarrow> betterFor p (childScore b p k) (childScore b p j))"
proof -
  let ?xs = "emptyIndices b"
  let ?f = "\<lambda>i. if p = MarkO then scoreOf (minimax (b[i := Some p]) MarkX)
                 else scoreOf (minimax (b[i := Some p]) MarkO)"
  let ?moves = "map (\<lambda>i. \<lparr>score = childScore b p i, index = Some i\<rparr>) ?xs"
  have f: "?f i = Inr (childScore b p i)" if "i \<in> set ?xs" for i
  proof -
    from tot [OF that] obtain res where
      r: "minimax (b[i := Some p]) (opponent p) = Inr (Some res)" by blast
    then show ?thesis
      by (cases "p = MarkO") (simp_all add: childScore_def mscore_def opponent_def)
  qed
  have ev: "evalMoves ?f ?xs = Inr ?moves"
    by (rule evalMoves_Inr) (rule f)
  have ne: "?moves \<noteq> []" using nt(3) by simp
  from bestMove_first_best [OF ne, of p] obtain k' where
    k': "k' < length ?xs" and bm: "bestMove p ?moves = Some k'"
    and opt: "\<forall>j<length ?xs. \<not> betterFor p (score (?moves ! j)) (score (?moves ! k'))"
    and fst: "\<forall>j<k'. betterFor p (score (?moves ! k')) (score (?moves ! j))"
    by auto
  let ?k = "?xs ! k'"
  have kin: "?k \<in> set ?xs" using k' by simp
  have mk: "?moves ! k' = \<lparr>score = childScore b p ?k, index = Some ?k\<rparr>"
    using k' by simp
  have res: "minimax b p = Inr (Some \<lparr>score = childScore b p ?k, index = Some ?k\<rparr>)"
    using nt ev bm k' mk by (simp add: minimax.simps [of b p] movesAt_def)
  have o: "\<not> betterFor p (childScore b p j) (childScore b p ?k)" if "j \<in> set ?xs" for j
  proof -
    from that obtain j' where "j' < length ?xs" "?xs ! j' = j"
      by (auto simp: in_set_conv_nth)
    with opt k' show ?thesis by force
  qed
  have s: "betterFor p (childScore b p ?k) (childScore b p j)" if "j \<in> set ?xs" "j < ?k" for j
  proof -
    from that obtain j' where j': "j' < length ?xs" "?xs ! j' = j"
      by (auto simp: in_set_conv_nth)
    have "j' < k'"
    proof (rule ccontr)
      assume "\<not> j' < k'"
      then have "k' \<le> j'" by simp
      with emptyIndices_sorted [of b] j'(1) have "?xs ! k' \<le> ?xs ! j'"
        by (simp add: sorted_nth_mono)
      with that(2) j'(2) show False by simp
    qed
    with fst j' k' show ?thesis by force
  qed
  from kin res o s show ?thesis by blast
qed

lemma minimax_total: "\<exists>res. minimax b p = Inr (Some res)"
proof (induction b p rule: minimax.induct)
  case (1 b player)
  show ?case
  proof (cases "checkWinner MarkX b \<or> checkWinner MarkO b \<or> emptyIndices b = []")
    case True
    then show ?thesis using minimax_terminal [of b player] by blast
  next
    case False
    then have nt: "\<not> checkWinner MarkX b" "\<not> checkWinner MarkO b" "emptyIndices b \<noteq> []"
      by simp_all
    have "\<exists>res. minimax (b[i := Some player]) (opponent player) = Inr (Some res)"
      if "i \<in> set (emptyIndices b)" for i
      using "1.IH" [OF nt(1) nt(2) _ that] nt(3)
      by (cases "player = MarkO") (simp_all add: opponent_def)
    from minimax_unfold [OF nt this] show ?thesis by blast
  qed
qed

lemma opponent_simps [simp]: "opponent MarkO = MarkX" "opponent MarkX = MarkO"
  by (simp_all add: opponent_def)

section \<open>Evaluation on concrete boards\<close>

lemma checkWinner_nine:
  "checkWinner p [a, b, c, d, e, f, g, h, i] =
     (a = Some p \<and> b = Some p \<and> c = Some p
      \<or> d = Some p \<and> e = Some p \<and> f = Some p
      \<or> g = Some p \<and> h = Some p \<and> i = Some p
      \<or> a = Some p \<and> d = Some p \<and> g = Some p
      \<or> b = Some p \<and> e = Some p \<and> h = Some p
      \<or> c = Some p \<and> f = Some p \<and> i = Some p
      \<or> a = Some p \<and> e = Some p \<and> i = Some p
      \<or> c = Some p \<and> e = Some p \<and> g = Some p)"
  by (simp add: checkWinner_def winPatterns_def cellAt_def)

lemma filter_Cons_append: "filter P (x # xs) = (if P x then [x] else []) @ filter P xs"
  by simp

lemma upt_nine: "[0..<length [a, b, c, d, e, f, g, h, i]] = [0, 1, 2, 3, 4, 5, 6, 7, 8]"
  by (simp add: upt_rec)

lemma nth_nine:
  "[a, b, c, d, e, f, g, h, i] ! 0 = a" "[a, b, c, d, e, f, g, h, i] ! 1 = b"
  "[a, b, c, d, e, f, g, h, i] ! 2 = c" "[a, b, c, d, e, f, g, h, i] ! 3 = d"
  "[a, b, c, d, e, f, g, h, i] ! 4 = e" "[a, b, c, d, e, f, g, h, i] ! 5 = f"
  "[a, b, c, d, e, f, g, h, i] ! 6 = g" "[a, b, c, d, e, f, g, h, i] ! 7 = h"
  "[a, b, c, d, e, f, g, h, i] ! 8 = i"
  by (simp_all add: eval_nat_numeral)

lemma emptyIndices_nine:
  "emptyIndices [a, b, c, d, e, f, g, h, i] =
     (if a = None then [0] else []) @ (if b = None then [1] else []) @
     (if c = None then [2] else []) @ (if d = None then [3] else []) @
     (if e = None then [4] else []) @ (if f = None then [5] else []) @
     (if g = None then [6] else []) @ (if h = None then [7] else []) @
     (if i = None then [8] else [])"
  unfolding emptyIndices_filter upt_nine
  by (simp only: filter_Cons_append filter.simps(1) nth_nine append_Nil2)

lemma update_nine:
  "[a, b, c, d, e, f, g, h, i][0 := v] = [v, b, c, d, e, f, g, h, i]"
  "[a, b, c, d, e, f, g, h, i][1 := v] = [a, v, c, d, e, f, g, h, i]"
  "[a, b, c, d, e, f, g, h, i][2 := v] = [a, b, v, d, e, f, g, h, i]"
  "[a, b, c, d, e, f, g, h, i][3 := v] = [a, b, c, v, e, f, g, h, i]"
  "[a, b, c, d, e, f, g, h, i][4 := v] = [a, b, c, d, v, f, g, h, i]"
  "[a, b, c, d, e, f, g, h, i][5 := v] = [a, b, c, d, e, v, g, h, i]"
  "[a, b, c, d, e, f, g, h, i][6 := v] = [a, b, c, d, e, f, v, h, i]"
  "[a, b, c, d, e, f, g, h, i][7 := v] = [a, b, c, d, e, f, g, v, i]"
  "[a, b, c, d, e, f, g, h, i][8 := v] = [a, b, c, d, e, f, g, h, v]"
  by (simp_all add: eval_nat_numeral)

lemma boardFull_nine:
  "boardFull [a, b, c, d, e, f, g, h, i] =
     (a \<noteq> None \<and> b \<noteq> None \<and> c \<noteq> None \<and> d \<noteq> None \<and> e \<noteq> None \<and> f \<noteq> None
      \<and> g \<noteq> None \<and> h \<noteq> None \<and> i \<noteq> None)"
  by (simp add: boardFull_def)

lemma emptyBoard_nine: "emptyBoard = [None, None, None, None, None, None, None, None, None]"
  by (simp add: emptyBoard_def eval_nat_numeral)

lemma chooseMove_eval_win:
  "findWinningMove MarkO (board s) \<noteq> - 1 \<Longrightarrow>
   chooseMove r s = Inr (Some (nat (findWinningMove MarkO (board s))), aiRandomMovesUsed s)"
  by (simp add: chooseMove_def Let_def)

lemma chooseMove_eval_block:
  "findWinningMove MarkO (board s) = - 1 \<Longrightarrow> findWinningMove MarkX (board s) \<noteq> - 1 \<Longrightarrow>
   chooseMove r s = Inr (Some (nat (findWinningMove MarkX (board s))), aiRandomMovesUsed s)"
  by (simp add: chooseMove_def Let_def)

lemma chooseMove_eval_policy:
  "findWinningMove MarkO (board s) = - 1 \<Longrightarrow> findWinningMove MarkX (board s) = - 1 \<Longrightarrow>
   chooseMove r s = difficultyPolicy r s"
  using chooseMove_policy [of s r] by (simp add: findWinningMove_none)

lemmas game_eval =
  handleCellClick_def makeMove_def setCell_def cellAtInt_def cellAt_def stack_push_def
  stack_pop_def stack_peek_def stack_isEmpty_def queue_enqueue_def queue_dequeue_def
  queue_isEmpty_def fireComputerMove_def computerMove_def moveBackward_def moveForward_def
  startReview_def displayReviewMove_def resetGame_def setDifficulty_def
  findWinningMove_def checkWinner_nine emptyIndices_nine update_nine boardFull_nine
  emptyBoard_nine Let_def

definition stateAfterUndo :: game where
  "stateAfterUndo =
     handleEvent BackwardBtn (handleEvent (ComputerMoveFires 0) (handleEvent (CellClick 0) newGame))"

lemmas policy_eval =
  chooseMove_eval_policy chooseMove_eval_win chooseMove_eval_block
  difficultyPolicy_def randomBudget_def randomMove_def randomIndex_def

lemma stateAfterUndo_eq:
  "stateAfterUndo =
   \<lparr>board = [Some MarkX, None, None, None, None, None, None, None, None],
     currentPlayer = MarkO, gameActive = True, difficulty = Medium,
     moveHistory =
       [\<lparr>mv_index = Some 0, mv_player = MarkX,
           mv_board = [Some MarkX, None, None, None, None, None, None, None, None],
           mv_aiRandomMovesUsed = 0\<rparr>],
     redoHistory =
       [\<lparr>mv_index = Some 1, mv_player = MarkO,
           mv_board = [Some MarkX, Some MarkO, None, None, None, None, None, None, None],
           mv_aiRandomMovesUsed = 1\<rparr>],
     reviewMode = False,
     allMoves =
       [\<lparr>mv_index = Some 0, mv_player = MarkX,
           mv_board = [Some MarkX, None, None, None, None, None, None, None, None],
           mv_aiRandomMovesUsed = 0\<rparr>],
     reviewIndex = - 1, aiRandomMovesUsed = 0, pendingComputerMoves = 0\<rparr>"
  by (simp add: stateAfterUndo_def newGame_def game_eval policy_eval)

definition finishedGame :: game where
  "finishedGame =
     handleEvent (CellClick 3)
      (handleEvent (ComputerMoveFires 0)
        (handleEvent (CellClick 6)
          (handleEvent (ComputerMoveFires 0)
            (handleEvent (CellClick 4)
              (handleEvent (ComputerMoveFires 0)
                (handleEvent (CellClick 0) newGame))))))"

lemma finishedGame_facts:
  "board finishedGame = [Some MarkX, Some MarkO, Some MarkO, Some MarkX, Some MarkX, None, Some MarkX, None, Some MarkO]"
  "gameActive finishedGame = False"
  "length (allMoves finishedGame) = 7"
  by (simp_all add: finishedGame_def newGame_def game_eval policy_eval)


section \<open>Winning lines under a move\<close>

lemma checkWinner_mono:
  "(\<And>j. cellAt b j = Some (Some p) \<Longrightarrow> cellAt b' j = Some (Some p)) \<Longrightarrow>
   checkWinner p b \<Longrightarrow> checkWinner p b'"
  unfolding checkWinner_def list_ex_iff list_all_iff by blast

lemma checkWinner_update_other:
  assumes "p \<noteq> q" "checkWinner p (b[i := Some q])"
  shows "checkWinner p b"
proof (rule checkWinner_mono [OF _ assms(2)])
  fix j assume c: "cellAt (b[i := Some q]) j = Some (Some p)"
  then have j: "j < length b" by (simp add: cellAt_def split: if_splits)
  from c j assms(1) have "j \<noteq> i" by (auto simp: cellAt_def)
  with c j show "cellAt b j = Some (Some p)" by (simp add: cellAt_def)
qed

lemma checkWinner_update_keep:
  assumes "checkWinner p b" "cellAt b i \<noteq> Some (Some p)"
  shows "checkWinner p (b[i := v])"
proof (rule checkWinner_mono [OF _ assms(1)])
  fix j assume c: "cellAt b j = Some (Some p)"
  with assms(2) have "j \<noteq> i" by auto
  with c show "cellAt (b[i := v]) j = Some (Some p)"
    by (simp add: cellAt_def split: if_splits)
qed

section \<open>Scores of a position and of its successors\<close>

lemma mscore_terminal:
  "checkWinner MarkX b \<Longrightarrow> mscore b p = - 10"
  "\<not> checkWinner MarkX b \<Longrightarrow> checkWinner MarkO b \<Longrightarrow> mscore b p = 10"
  "\<not> checkWinner MarkX b \<Longrightarrow> \<not> checkWinner MarkO b \<Longrightarrow> emptyIndices b = [] \<Longrightarrow> mscore b p = 0"
  by (simp_all add: mscore_def minimax_terminal)

lemma minimax_step:
  assumes "\<not> checkWinner MarkX b" "\<not> checkWinner MarkO b" "emptyIndices b \<noteq> []"
  shows "\<exists>k \<in> set (emptyIndices b).
           minimax b p = Inr (Some \<lparr>score = childScore b p k, index = Some k\<rparr>)
           \<and> (\<forall>j \<in> set (emptyIndices b). \<not> betterFor p (childScore b p j) (childScore b p k))
           \<and> (\<forall>j \<in> set (emptyIndices b). j < k \<longrightarrow> betterFor p (childScore b p k) (childScore b p j))"
  using minimax_unfold [OF assms minimax_total] .

lemma mscore_min:
  assumes "\<not> checkWinner MarkX b" "\<not> checkWinner MarkO b" "j \<in> set (emptyIndices b)"
  shows "mscore b MarkX \<le> mscore (b[j := Some MarkX]) MarkO"
proof -
  from assms(3) have ne: "emptyIndices b \<noteq> []" by auto
  from minimax_step [OF assms(1,2) ne, of MarkX] assms(3) show ?thesis
    by (auto simp: mscore_def childScore_def betterFor_def)
qed

lemma mscore_min_attained:
  assumes "\<not> checkWinner MarkX b" "\<not> checkWinner MarkO b" "emptyIndices b \<noteq> []"
  shows "\<exists>k \<in> set (emptyIndices b). mscore b MarkX = mscore (b[k := Some MarkX]) MarkO"
  using minimax_step [OF assms, of MarkX]
  by (auto simp: mscore_def childScore_def)

lemma mscore_max:
  assumes "\<not> checkWinner MarkX b" "\<not> checkWinner MarkO b" "j \<in> set (emptyIndices b)"
  shows "mscore (b[j := Some MarkO]) MarkX \<le> mscore b MarkO"
proof -
  from assms(3) have ne: "emptyIndices b \<noteq> []" by auto
  from minimax_step [OF assms(1,2) ne, of MarkO] assms(3) show ?thesis
    by (auto simp: mscore_def childScore_def betterFor_def)
qed

lemma minimax_index_max:
  assumes "\<not> checkWinner MarkX b" "\<not> checkWinner MarkO b" "emptyIndices b \<noteq> []"
  shows "\<exists>k \<in> set (emptyIndices b).
           indexOf (minimax b MarkO) = Inr (Some k)
           \<and> mscore b MarkO = mscore (b[k := Some MarkO]) MarkX"
  using minimax_step [OF assms, of MarkO]
  by (auto simp: mscore_def childScore_def)

section \<open>A certificate that the second player holds the draw\<close>

text \<open>
  The cells in which \<open>MarkO\<close> is tried, the centre and the corners first: the empty
  cells of the board in that order.
\<close>

definition candidates :: "board \<Rightarrow> nat list" where
  "candidates b = filter (\<lambda>i. cellAt b i = Some None) [4, 8, 6, 2, 0, 7, 5, 3, 1]"

lemma candidates_empty:
  assumes "i \<in> set (candidates b)"
  shows "i \<in> set (emptyIndices b)"
proof -
  from assms have "cellAt b i = Some None"
    unfolding candidates_def set_filter by (rule CollectE) simp
  then show ?thesis
    by (simp add: emptyIndices_set cellAt_def split: if_splits)
qed

text \<open>
  \<open>holds MarkX n b xs\<close>: whichever cell of \<open>xs\<close> the human takes on \<open>b\<close>, the
  computer can avoid defeat; \<open>holds MarkO n b xs\<close>: some cell of \<open>xs\<close> lets the
  computer avoid defeat. \<open>n\<close> bounds the number of moves looked ahead.
\<close>

fun holds :: "mark \<Rightarrow> nat \<Rightarrow> board \<Rightarrow> nat list \<Rightarrow> bool" where
  "holds MarkX n b [] = True"
| "holds MarkO n b [] = False"
| "holds p 0 b (i # rest) = False"
| "holds MarkX (Suc n) b (i # rest) =
     (if (if checkWinner MarkX (b[i := Some MarkX]) then False
          else if checkWinner MarkO (b[i := Some MarkX]) then True
          else if emptyIndices (b[i := Some MarkX]) = [] then True
          else holds MarkO n (b[i := Some MarkX]) (candidates (b[i := Some MarkX])))
      then holds MarkX (Suc n) b rest else False)"
| "holds MarkO (Suc n) b (i # rest) =
     (if (if checkWinner MarkX (b[i := Some MarkO]) then False
          else if checkWinner MarkO (b[i := Some MarkO]) then True
          else if emptyIndices (b[i := Some MarkO]) = [] then True
          else holds MarkX n (b[i := Some MarkO]) (emptyIndices (b[i := Some MarkO])))
      then True else holds MarkO (Suc n) b rest)"

lemma node_score_O:
  assumes nx: "\<not> checkWinner MarkX b"
    and node: "checkWinner MarkO b \<or> emptyIndices b = []
               \<or> (\<exists>k \<in> set (emptyIndices b). 0 \<le> mscore (b[k := Some MarkO]) MarkX)"
  shows "0 \<le> mscore b MarkO"
proof (cases "checkWinner MarkO b")
  case True
  with nx show ?thesis by (simp add: mscore_terminal)
next
  case no: False
  show ?thesis
  proof (cases "emptyIndices b = []")
    case True
    with nx no show ?thesis by (simp add: mscore_terminal)
  next
    case False
    with node no obtain k where k: "k \<in> set (emptyIndices b)"
      and s: "0 \<le> mscore (b[k := Some MarkO]) MarkX" by blast
    from mscore_max [OF nx no k] s show ?thesis by simp
  qed
qed

lemma node_score_X:
  assumes nx: "\<not> checkWinner MarkX b"
    and node: "checkWinner MarkO b \<or> emptyIndices b = []
               \<or> (\<forall>k \<in> set (emptyIndices b). 0 \<le> mscore (b[k := Some MarkX]) MarkO)"
  shows "0 \<le> mscore b MarkX"
proof (cases "checkWinner MarkO b")
  case True
  with nx show ?thesis by (simp add: mscore_terminal)
next
  case no: False
  show ?thesis
  proof (cases "emptyIndices b = []")
    case True
    with nx no show ?thesis by (simp add: mscore_terminal)
  next
    case False
    from mscore_min_attained [OF nx no False] obtain k where
      "k \<in> set (emptyIndices b)" "mscore b MarkX = mscore (b[k := Some MarkX]) MarkO"
      by blast
    with node no False show ?thesis by simp
  qed
qed


lemma holds_sound:
  "holds p n b xs \<Longrightarrow>
   (if p = MarkX then \<forall>i \<in> set xs. 0 \<le> mscore (b[i := Some MarkX]) MarkO
    else \<exists>i \<in> set xs. 0 \<le> mscore (b[i := Some MarkO]) MarkX)"
proof (induction p n b xs rule: holds.induct)
  case (1 n b)
  show ?case by simp
next
  case (2 n b)
  then show ?case by simp
next
  case (3 p b i rest)
  then show ?case by simp
next
  case (4 n b i rest)
  let ?b = "b[i := Some MarkX]"
  from "4.prems" have nx: "\<not> checkWinner MarkX ?b"
    by (simp split: if_splits)
  from "4.prems" have rest: "holds MarkX (Suc n) b rest"
    by (simp split: if_splits)
  from "4.prems" have node: "checkWinner MarkO ?b \<or> emptyIndices ?b = []
               \<or> holds MarkO n ?b (candidates ?b)"
    by (simp split: if_splits)
  have "checkWinner MarkO ?b \<or> emptyIndices ?b = []
        \<or> (\<exists>k \<in> set (emptyIndices ?b). 0 \<le> mscore (?b[k := Some MarkO]) MarkX)"
  proof (cases "checkWinner MarkO ?b \<or> emptyIndices ?b = []")
    case True
    then show ?thesis by blast
  next
    case False
    with node have h: "holds MarkO n ?b (candidates ?b)" by blast
    from False have no: "\<not> checkWinner MarkO ?b" and ne: "emptyIndices ?b \<noteq> []" by simp_all
    from "4.IH"(1) [OF nx no ne h] obtain k where
      "k \<in> set (candidates ?b)" "0 \<le> mscore (?b[k := Some MarkO]) MarkX"
      by auto
    then show ?thesis using candidates_empty by blast
  qed
  from node_score_O [OF nx this] have here: "0 \<le> mscore ?b MarkO" .
  have c: "if checkWinner MarkX ?b then False
          else if checkWinner MarkO ?b then True
          else if emptyIndices ?b = [] then True
          else holds MarkO n ?b (candidates ?b)"
    using nx node by auto
  from "4.IH"(2) [OF c rest] have "\<forall>j \<in> set rest. 0 \<le> mscore (b[j := Some MarkX]) MarkO"
    by simp
  with here show ?case by simp
next
  case (5 n b i rest)
  let ?b = "b[i := Some MarkO]"
  let ?c = "if checkWinner MarkX ?b then False
          else if checkWinner MarkO ?b then True
          else if emptyIndices ?b = [] then True
          else holds MarkX n ?b (emptyIndices ?b)"
  show ?case
  proof (cases ?c)
    case True
    then have nx: "\<not> checkWinner MarkX ?b"
      by (simp split: if_splits)
    from True have node: "checkWinner MarkO ?b \<or> emptyIndices ?b = []
                 \<or> holds MarkX n ?b (emptyIndices ?b)"
      by (simp split: if_splits)
    have "checkWinner MarkO ?b \<or> emptyIndices ?b = []
        \<or> (\<forall>k \<in> set (emptyIndices ?b). 0 \<le> mscore (?b[k := Some MarkX]) MarkO)"
    proof (cases "checkWinner MarkO ?b \<or> emptyIndices ?b = []")
      case True
      then show ?thesis by blast
    next
      case False
      with node have h: "holds MarkX n ?b (emptyIndices ?b)" by blast
      from False have no: "\<not> checkWinner MarkO ?b" and ne: "emptyIndices ?b \<noteq> []" by simp_all
      from "5.IH"(1) [OF nx no ne h] show ?thesis by simp
    qed
    from node_score_X [OF nx this] have "0 \<le> mscore ?b MarkX" .
    then show ?thesis by simp
  next
    case False
    with "5.prems" have "holds MarkO (Suc n) b rest" by simp
    from "5.IH"(2) [OF False this] show ?thesis by auto
  qed
qed


section \<open>Hard play\<close>

definition hardGame :: game where
  "hardGame = setDifficulty Hard newGame"

text \<open>
  One round of play: the human clicks cell \<open>i\<close>, and the callback that the click
  scheduled, if any, runs before the next click.
\<close>

definition playRound :: "int \<Rightarrow> real \<Rightarrow> game \<Rightarrow> game" where
  "playRound i r s =
     (let s1 = handleCellClick i s
      in if 0 < pendingComputerMoves s1 then fireComputerMove r s1 else s1)"

fun play :: "(int \<times> real) list \<Rightarrow> game \<Rightarrow> game" where
  "play [] s = s"
| "play ((i, r) # rest) s = play rest (playRound i r s)"

lemma makeMove_status:
  "gameActive (makeMove idx player s) =
     (gameActive s \<and> \<not> checkWinner player (setCell (board s) idx player)
      \<and> \<not> boardFull (setCell (board s) idx player))"
  "currentPlayer (makeMove idx player s) =
     (if checkWinner player (setCell (board s) idx player)
         \<or> boardFull (setCell (board s) idx player)
      then currentPlayer s
      else if currentPlayer s = MarkX then MarkO else MarkX)"
  by (simp_all add: makeMove_def Let_def)

text \<open>The human is to move, or the game is over and the human has not won.\<close>

definition hardInv :: "game \<Rightarrow> bool" where
  "hardInv s \<longleftrightarrow>
     difficulty s = Hard \<and> \<not> reviewMode s \<and> pendingComputerMoves s = 0
     \<and> length (board s) = 9 \<and> \<not> checkWinner MarkX (board s)
     \<and> (if gameActive s
         then currentPlayer s = MarkX \<and> \<not> checkWinner MarkO (board s)
              \<and> \<not> boardFull (board s) \<and> 0 \<le> mscore (board s) MarkX
         else checkWinner MarkO (board s) \<or> boardFull (board s))"

text \<open>The computer is to move and its callback is pending.\<close>

definition midInv :: "game \<Rightarrow> bool" where
  "midInv s \<longleftrightarrow>
     difficulty s = Hard \<and> \<not> reviewMode s \<and> pendingComputerMoves s = 1
     \<and> length (board s) = 9 \<and> gameActive s \<and> currentPlayer s = MarkO
     \<and> \<not> checkWinner MarkX (board s) \<and> \<not> checkWinner MarkO (board s)
     \<and> \<not> boardFull (board s) \<and> 0 \<le> mscore (board s) MarkO"

lemma hardInv_click:
  assumes inv: "hardInv s"
  shows "handleCellClick i s = s \<or> midInv (handleCellClick i s) \<or> hardInv (handleCellClick i s)"
proof (cases "reviewMode s \<or> \<not> gameActive s \<or> cellAtInt (board s) i \<noteq> Some None
         \<or> currentPlayer s \<noteq> MarkX")
  case True
  then show ?thesis by (simp add: handleCellClick_def)
next
  case False
  let ?b = "board s"
  let ?k = "nat i"
  let ?b1 = "?b[?k := Some MarkX]"
  let ?s1 = "makeMove (Some ?k) MarkX s"
  from False have act: "gameActive s" and cur: "currentPlayer s = MarkX"
    and cell: "cellAtInt ?b i = Some None" by simp_all
  from cell have kin: "?k \<in> set (emptyIndices ?b)"
    by (simp add: cellAtInt_def cellAt_def emptyIndices_set split: if_splits)
  from inv act have nx: "\<not> checkWinner MarkX ?b" and no: "\<not> checkWinner MarkO ?b"
    and sc: "0 \<le> mscore ?b MarkX" and hard: "difficulty s = Hard"
    and nr: "\<not> reviewMode s" and pend: "pendingComputerMoves s = 0"
    and len: "length (board s) = 9"
    by (simp_all add: hardInv_def)
  from mscore_min [OF nx no kin] sc have sc1: "0 \<le> mscore ?b1 MarkO" by simp
  have nx1: "\<not> checkWinner MarkX ?b1"
  proof
    assume "checkWinner MarkX ?b1"
    then have "mscore ?b1 MarkO = - 10" by (simp add: mscore_terminal)
    with sc1 show False by simp
  qed
  have no1: "\<not> checkWinner MarkO ?b1"
    using checkWinner_update_other [of MarkO MarkX ?b ?k] no by blast
  have b1: "board ?s1 = ?b1" by (simp add: makeMove_fields setCell_def)
  have hc: "handleCellClick i s =
      (if gameActive ?s1 \<and> currentPlayer ?s1 = MarkO
       then ?s1\<lparr>pendingComputerMoves := pendingComputerMoves ?s1 + 1\<rparr> else ?s1)"
    using False by (simp add: handleCellClick_def Let_def)
  show ?thesis
  proof (cases "boardFull ?b1")
    case True
    then have "\<not> gameActive ?s1" by (simp add: makeMove_status setCell_def)
    with hc have eq: "handleCellClick i s = ?s1" by simp
    have "hardInv ?s1"
      using True nx1 hard nr pend len
      by (simp add: hardInv_def makeMove_fields makeMove_status setCell_def)
    with eq show ?thesis by simp
  next
    case nf: False
    have a1: "gameActive ?s1" using act nx1 nf by (simp add: makeMove_status setCell_def)
    have c1: "currentPlayer ?s1 = MarkO" using cur nx1 nf by (simp add: makeMove_status setCell_def)
    from hc a1 c1 have eq: "handleCellClick i s =
        ?s1\<lparr>pendingComputerMoves := pendingComputerMoves ?s1 + 1\<rparr>" by simp
    have "midInv (?s1\<lparr>pendingComputerMoves := pendingComputerMoves ?s1 + 1\<rparr>)"
      using a1 c1 nx1 no1 nf sc1 hard nr pend len
      by (simp add: midInv_def makeMove_fields setCell_def)
    with eq show ?thesis by simp
  qed
qed

lemma forced_block:
  assumes nx: "\<not> checkWinner MarkX b" and no: "\<not> checkWinner MarkO b"
    and nowin: "\<forall>j. \<not> winningCell MarkO b j"
    and threat: "winningCell MarkX b k"
    and sc: "0 \<le> mscore b MarkO"
  shows "0 \<le> mscore (b[k := Some MarkO]) MarkX"
proof -
  from threat have kin: "k \<in> set (emptyIndices b)"
    and kwin: "checkWinner MarkX (b[k := Some MarkX])"
    by (simp_all add: winningCell_def)
  then have ne: "emptyIndices b \<noteq> []" by auto
  from minimax_index_max [OF nx no ne] obtain m where
    min: "m \<in> set (emptyIndices b)" and meq: "mscore b MarkO = mscore (b[m := Some MarkO]) MarkX"
    by blast
  show ?thesis
  proof (cases "m = k")
    case True
    with meq sc show ?thesis by simp
  next
    case False
    let ?b' = "b[m := Some MarkO]"
    have nx': "\<not> checkWinner MarkX ?b'"
      using checkWinner_update_other [of MarkX MarkO b m] nx by blast
    have no': "\<not> checkWinner MarkO ?b'"
      using nowin min by (auto simp: winningCell_def)
    have kin': "k \<in> set (emptyIndices ?b')"
      using kin False by (simp add: emptyIndices_set)
    have "cellAt (b[k := Some MarkX]) m \<noteq> Some (Some MarkX)"
      using min False by (simp add: cellAt_def emptyIndices_set)
    from checkWinner_update_keep [OF kwin this, of "Some MarkO"]
    have "checkWinner MarkX (?b'[k := Some MarkX])"
      using False by (simp add: list_update_swap)
    then have "mscore (?b'[k := Some MarkX]) MarkO = - 10"
      by (simp add: mscore_terminal)
    with mscore_min [OF nx' no' kin'] have "mscore ?b' MarkX \<le> - 10" by simp
    with meq sc show ?thesis by simp
  qed
qed

lemma hardInv_after_reply:
  assumes act: "gameActive s" and cur: "currentPlayer s = MarkO"
    and hard: "difficulty s = Hard" and nr: "\<not> reviewMode s"
    and pend: "pendingComputerMoves s = 0" and len: "length (board s) = 9"
    and nx: "\<not> checkWinner MarkX (board s)"
    and ok: "checkWinner MarkO ((board s)[k := Some MarkO])
             \<or> 0 \<le> mscore ((board s)[k := Some MarkO]) MarkX"
  shows "hardInv (makeMove (Some k) MarkO (s\<lparr>aiRandomMovesUsed := u\<rparr>))"
proof -
  let ?b2 = "(board s)[k := Some MarkO]"
  have nx2: "\<not> checkWinner MarkX ?b2"
    using checkWinner_update_other [of MarkX MarkO "board s" k] nx by blast
  show ?thesis
  proof (cases "checkWinner MarkO ?b2 \<or> boardFull ?b2")
    case True
    then show ?thesis
      using nx2 hard nr pend len
      by (auto simp: hardInv_def makeMove_fields makeMove_status setCell_def)
  next
    case False
    with ok have "0 \<le> mscore ?b2 MarkX" by blast
    with False show ?thesis
      using nx2 hard nr pend len act cur
      by (simp add: hardInv_def makeMove_fields makeMove_status setCell_def)
  qed
qed

lemma chooseMove_hard:
  assumes hard: "difficulty s = Hard"
    and nx: "\<not> checkWinner MarkX (board s)" and no: "\<not> checkWinner MarkO (board s)"
    and nf: "\<not> boardFull (board s)" and sc: "0 \<le> mscore (board s) MarkO"
  shows "\<exists>k u. chooseMove r s = Inr (Some k, u)
           \<and> (checkWinner MarkO ((board s)[k := Some MarkO])
                \<or> 0 \<le> mscore ((board s)[k := Some MarkO]) MarkX)"
proof -
  let ?b = "board s"
  from nf have ne: "emptyIndices ?b \<noteq> []" by (simp add: emptyIndices_Nil_boardFull)
  show ?thesis
  proof (cases "\<exists>j. winningCell MarkO ?b j")
    case True
    with findWinningMove_cases [of MarkO ?b] obtain k where
      w: "winningCell MarkO ?b k" and f: "\<forall>j<k. \<not> winningCell MarkO ?b j"
      by (auto simp: findWinningMove_none)
    from chooseMove_win [OF w f, of r] w show ?thesis
      by (auto simp: winningCell_def)
  next
    case nowin: False
    show ?thesis
    proof (cases "\<exists>j. winningCell MarkX ?b j")
      case True
      with findWinningMove_cases [of MarkX ?b] obtain k where
        w: "winningCell MarkX ?b k" and f: "\<forall>j<k. \<not> winningCell MarkX ?b j"
        by (auto simp: findWinningMove_none)
      from nowin have nw: "\<forall>j. \<not> winningCell MarkO ?b j" by blast
      from chooseMove_block [OF nw w f, of r] forced_block [OF nx no nw w sc]
      show ?thesis by blast
    next
      case False
      with nowin have nw: "\<forall>j. \<not> winningCell MarkO ?b j"
        and nt: "\<forall>j. \<not> winningCell MarkX ?b j" by blast+
      from minimax_index_max [OF nx no ne] obtain k where
        k: "indexOf (minimax ?b MarkO) = Inr (Some k)"
        and m: "mscore ?b MarkO = mscore (?b[k := Some MarkO]) MarkX" by blast
      have "chooseMove r s = Inr (Some k, aiRandomMovesUsed s)"
        using chooseMove_policy [OF nw nt, of r] hard k
        by (simp add: difficultyPolicy_def randomBudget_def searchMove_def)
      with m sc show ?thesis by auto
    qed
  qed
qed

lemma midInv_fire:
  assumes "midInv s"
  shows "hardInv (fireComputerMove r s)"
proof -
  let ?s1 = "s\<lparr>pendingComputerMoves := pendingComputerMoves s - 1\<rparr>"
  from assms have act: "gameActive ?s1" and cur: "currentPlayer ?s1 = MarkO"
    and hard: "difficulty ?s1 = Hard" and nr: "\<not> reviewMode ?s1"
    and pend: "pendingComputerMoves ?s1 = 0" and len: "length (board ?s1) = 9"
    and nx: "\<not> checkWinner MarkX (board ?s1)" and no: "\<not> checkWinner MarkO (board ?s1)"
    and nf: "\<not> boardFull (board ?s1)" and sc: "0 \<le> mscore (board ?s1) MarkO"
    by (simp_all add: midInv_def)
  from chooseMove_hard [OF hard nx no nf sc, of r] obtain k u where
    c: "chooseMove r ?s1 = Inr (Some k, u)"
    and ok: "checkWinner MarkO ((board ?s1)[k := Some MarkO])
             \<or> 0 \<le> mscore ((board ?s1)[k := Some MarkO]) MarkX"
    by blast
  have "fireComputerMove r s = makeMove (Some k) MarkO (?s1\<lparr>aiRandomMovesUsed := u\<rparr>)"
    using act c by (simp add: fireComputerMove_def computerMove_def Let_def)
  with hardInv_after_reply [OF act cur hard nr pend len nx ok, of u] show ?thesis by simp
qed

lemma hardInv_playRound: "hardInv s \<Longrightarrow> hardInv (playRound i r s)"
proof -
  assume inv: "hardInv s"
  from hardInv_click [OF inv, of i] show ?thesis
  proof (elim disjE)
    assume "handleCellClick i s = s"
    with inv show ?thesis by (simp add: playRound_def hardInv_def)
  next
    assume m: "midInv (handleCellClick i s)"
    then have "0 < pendingComputerMoves (handleCellClick i s)" by (simp add: midInv_def)
    with midInv_fire [OF m, of r] show ?thesis by (simp add: playRound_def)
  next
    assume h: "hardInv (handleCellClick i s)"
    then have "pendingComputerMoves (handleCellClick i s) = 0" by (simp add: hardInv_def)
    with h show ?thesis by (simp add: playRound_def)
  qed
qed

lemma hardInv_play: "hardInv s \<Longrightarrow> hardInv (play ms s)"
proof (induction ms arbitrary: s)
  case Nil
  then show ?case by simp
next
  case (Cons m ms)
  then show ?case by (cases m) (simp add: hardInv_playRound)
qed


lemma opening_0: "holds MarkX 9 emptyBoard [0]" by code_simp
lemma opening_1: "holds MarkX 9 emptyBoard [1]" by code_simp
lemma opening_2: "holds MarkX 9 emptyBoard [2]" by code_simp
lemma opening_3: "holds MarkX 9 emptyBoard [3]" by code_simp
lemma opening_4: "holds MarkX 9 emptyBoard [4]" by code_simp
lemma opening_5: "holds MarkX 9 emptyBoard [5]" by code_simp
lemma opening_6: "holds MarkX 9 emptyBoard [6]" by code_simp
lemma opening_7: "holds MarkX 9 emptyBoard [7]" by code_simp
lemma opening_8: "holds MarkX 9 emptyBoard [8]" by code_simp

lemma emptyBoard_no_winner: "\<not> checkWinner p emptyBoard"
  by (simp add: emptyBoard_nine checkWinner_nine)

lemma emptyBoard_indices: "emptyIndices emptyBoard = [0, 1, 2, 3, 4, 5, 6, 7, 8]"
  by (simp add: emptyBoard_nine emptyIndices_nine)

lemma emptyBoard_score: "0 \<le> mscore emptyBoard MarkX"
proof -
  have "\<forall>k \<in> set (emptyIndices emptyBoard). 0 \<le> mscore (emptyBoard[k := Some MarkX]) MarkO"
    using holds_sound [OF opening_0] holds_sound [OF opening_1] holds_sound [OF opening_2]
      holds_sound [OF opening_3] holds_sound [OF opening_4] holds_sound [OF opening_5]
      holds_sound [OF opening_6] holds_sound [OF opening_7] holds_sound [OF opening_8]
    by (simp add: emptyBoard_indices)
  with node_score_X [OF emptyBoard_no_winner] show ?thesis by blast
qed

lemma emptyBoard_not_full: "\<not> boardFull emptyBoard"
  by (simp add: emptyBoard_nine boardFull_nine)

lemma hardInv_hardGame: "hardInv hardGame"
  using emptyBoard_score emptyBoard_no_winner emptyBoard_not_full
  by (simp add: hardInv_def hardGame_def setDifficulty_def resetGame_def newGame_def
        emptyBoard_def)

section \<open>Boards keep nine cells\<close>

definition boardsOk :: "game \<Rightarrow> bool" where
  "boardsOk s \<longleftrightarrow>
     length (board s) = 9
     \<and> list_all (\<lambda>m. length (mv_board m) = 9) (moveHistory s)
     \<and> list_all (\<lambda>m. length (mv_board m) = 9) (redoHistory s)
     \<and> list_all (\<lambda>m. length (mv_board m) = 9) (allMoves s)"

lemma list_all_butlast: "list_all P xs \<Longrightarrow> list_all P (butlast xs)"
  by (auto simp: list_all_iff dest: in_set_butlastD)

lemma list_all_tl: "list_all P xs \<Longrightarrow> list_all P (tl xs)"
  by (cases xs) simp_all

lemma list_all_last: "list_all P xs \<Longrightarrow> xs \<noteq> [] \<Longrightarrow> P (last xs)"
  by (simp add: list_all_iff)

lemma list_all_hd: "list_all P xs \<Longrightarrow> xs \<noteq> [] \<Longrightarrow> P (hd xs)"
  by (cases xs) simp_all

lemma list_all_nth: "list_all P xs \<Longrightarrow> n < length xs \<Longrightarrow> P (xs ! n)"
  by (simp add: list_all_length)

lemma stack_peek_Some: "stack_peek items = Some x \<Longrightarrow> items \<noteq> [] \<and> x = last items"
  by (cases items rule: rev_cases) (simp_all add: stack_peek_def stack_isEmpty_def)

lemma boardsOk_makeMove: "boardsOk s \<Longrightarrow> boardsOk (makeMove idx player s)"
  by (simp add: boardsOk_def makeMove_fields)

lemma boardsOk_handleCellClick: "boardsOk s \<Longrightarrow> boardsOk (handleCellClick i s)"
  using boardsOk_makeMove [of s "Some (nat i)" MarkX]
  by (auto simp: handleCellClick_def Let_def boardsOk_def)

lemma boardsOk_fireComputerMove: "boardsOk s \<Longrightarrow> boardsOk (fireComputerMove r s)"
proof -
  assume h: "boardsOk s"
  have u: "boardsOk (s\<lparr>pendingComputerMoves := n, aiRandomMovesUsed := u\<rparr>)" for n u
    using h by (simp add: boardsOk_def)
  have p: "boardsOk (s\<lparr>pendingComputerMoves := n\<rparr>)" for n
    using h by (simp add: boardsOk_def)
  show ?thesis
    using p boardsOk_makeMove [OF u]
    by (auto simp: fireComputerMove_def computerMove_def Let_def
             split: sum.splits prod.splits if_splits)
qed

lemma boardsOk_displayReviewMove: "boardsOk s \<Longrightarrow> boardsOk (displayReviewMove s)"
  by (auto simp: boardsOk_def displayReviewMove_def emptyBoard_def list_all_length)

lemma boardsOk_moveBackward: "boardsOk s \<Longrightarrow> boardsOk (moveBackward s)"
proof (cases "reviewMode s")
  case True
  assume h: "boardsOk s"
  have "boardsOk (s\<lparr>reviewIndex := k\<rparr>)" for k using h by (simp add: boardsOk_def)
  from boardsOk_displayReviewMove [OF this] h True show ?thesis
    by (simp add: moveBackward_def)
next
  case False
  assume h: "boardsOk s"
  show ?thesis
  proof (cases "moveHistory s = []")
    case True
    with False h show ?thesis
      by (simp add: moveBackward_def stack_pop_def stack_isEmpty_def)
  next
    case ne: False
    from h have hist: "list_all (\<lambda>m. length (mv_board m) = 9) (moveHistory s)"
      by (simp add: boardsOk_def)
    from list_all_last [OF hist ne] have l: "length (mv_board (last (moveHistory s))) = 9" .
    from list_all_butlast [OF hist]
    have b: "list_all (\<lambda>m. length (mv_board m) = 9) (butlast (moveHistory s))" .
    have pk: "length (mv_board x) = 9" if "stack_peek (butlast (moveHistory s)) = Some x" for x
      using stack_peek_Some [OF that] list_all_last [OF b] by simp
    show ?thesis
      using False ne h l b pk list_all_butlast [of _ "allMoves s"]
      by (auto simp: moveBackward_def stack_pop_def stack_isEmpty_def Let_def boardsOk_def
            queue_enqueue_def emptyBoard_def
            split: option.splits)
  qed
qed

lemma boardsOk_moveForward: "boardsOk s \<Longrightarrow> boardsOk (moveForward s)"
proof (cases "reviewMode s")
  case True
  assume h: "boardsOk s"
  have "boardsOk (s\<lparr>reviewIndex := k\<rparr>)" for k using h by (simp add: boardsOk_def)
  from boardsOk_displayReviewMove [OF this] h True show ?thesis
    by (simp add: moveForward_def)
next
  case False
  assume h: "boardsOk s"
  show ?thesis
  proof (cases "redoHistory s = []")
    case True
    with False h show ?thesis
      by (simp add: moveForward_def queue_dequeue_def queue_isEmpty_def)
  next
    case ne: False
    from h have q: "list_all (\<lambda>m. length (mv_board m) = 9) (redoHistory s)"
      by (simp add: boardsOk_def)
    show ?thesis
      using False ne h list_all_hd [OF q ne] list_all_tl [OF q]
      by (simp add: moveForward_def queue_dequeue_def queue_isEmpty_def Let_def boardsOk_def
            stack_push_def)
  qed
qed

lemma boardsOk_handleEvent: "boardsOk s \<Longrightarrow> boardsOk (handleEvent e s)"
proof (cases e)
  case (CellClick i)
  assume "boardsOk s"
  then show ?thesis using CellClick by (simp add: boardsOk_handleCellClick)
next
  case (ComputerMoveFires r)
  assume "boardsOk s"
  then show ?thesis using ComputerMoveFires by (simp add: boardsOk_fireComputerMove)
next
  case BackwardBtn
  assume "boardsOk s"
  then show ?thesis using BackwardBtn by (simp add: boardsOk_moveBackward)
next
  case ForwardBtn
  assume "boardsOk s"
  then show ?thesis using ForwardBtn by (simp add: boardsOk_moveForward)
next
  case ReviewBtn
  assume "boardsOk s"
  then show ?thesis using ReviewBtn by (simp add: boardsOk_def startReview_def emptyBoard_def)
next
  case ResetBtn
  then show ?thesis by (simp add: boardsOk_def resetGame_def emptyBoard_def)
next
  case (DifficultyBtn d)
  then show ?thesis by (simp add: boardsOk_def resetGame_def setDifficulty_def emptyBoard_def)
qed

lemma reachable_boardsOk: "reachable s \<Longrightarrow> boardsOk s"
proof (induction rule: reachable.induct)
  case reachable_init
  show ?case by (simp add: boardsOk_def newGame_def emptyBoard_def)
next
  case (reachable_step s e)
  then show ?case by (simp add: boardsOk_handleEvent)
qed

lemma handleCellClick_ignored:
  "reviewMode s \<or> \<not> gameActive s \<or> cellAtInt (board s) idx \<noteq> Some None
   \<Longrightarrow> handleCellClick idx s = s"
  by (auto simp: handleCellClick_def)

section \<open>Alternating play\<close>


definition winInv :: "game \<Rightarrow> bool" where
  "winInv s \<longleftrightarrow>
     (gameActive s \<longrightarrow> \<not> checkWinner MarkX (board s) \<and> \<not> checkWinner MarkO (board s))
     \<and> \<not> (checkWinner MarkX (board s) \<and> checkWinner MarkO (board s))"




lemma winInv_pending [simp]: "winInv (s\<lparr>pendingComputerMoves := n\<rparr>) = winInv s"
  by (simp add: winInv_def)




section \<open>A callback that is pending across a reset\<close>

lemma emptyBoard_findWinningMove: "findWinningMove p emptyBoard = - 1"
  by (simp add: findWinningMove_def emptyBoard_nine emptyIndices_nine update_nine
        checkWinner_nine)

lemma randomIndex_in_range:
  assumes "0 \<le> r" "r < 1" "xs \<noteq> []"
  shows "\<exists>k<length xs. randomIndex r xs = Some (xs ! k)"
proof -
  let ?k = "nat \<lfloor>r * real (length xs)\<rfloor>"
  from assms have "r * real (length xs) < real (length xs)" by simp
  then have "\<lfloor>r * real (length xs)\<rfloor> < int (length xs)" by (simp add: floor_less_iff)
  moreover have "0 \<le> \<lfloor>r * real (length xs)\<rfloor>" using assms(1) by simp
  ultimately have "?k < length xs" by (simp add: nat_less_iff)
  then show ?thesis by (auto simp: randomIndex_def Let_def)
qed

lemma chooseMove_emptyBoard:
  assumes b: "board s = emptyBoard" and r: "0 \<le> r" "r < 1" and u: "aiRandomMovesUsed s = 0"
  shows "\<exists>k<9. \<exists>used. chooseMove r s = Inr (Some k, used)"
proof -
  have pol: "chooseMove r s = difficultyPolicy r s"
    by (rule chooseMove_eval_policy) (simp_all add: b emptyBoard_findWinningMove)
  have search: "\<exists>k<9. searchMove s = Inr (Some k, aiRandomMovesUsed s)"
  proof -
    from minimax_index_max [of emptyBoard] obtain k where
      "k \<in> set (emptyIndices emptyBoard)" "indexOf (minimax emptyBoard MarkO) = Inr (Some k)"
      by (auto simp: emptyBoard_no_winner emptyBoard_indices)
    then show ?thesis by (auto simp: searchMove_def b emptyBoard_indices)
  qed
  have random: "\<exists>k<9. randomMove r s = Inr (Some k, aiRandomMovesUsed s + 1)"
  proof -
    from randomIndex_in_range [OF r, of "emptyIndices emptyBoard"] obtain k where
      k: "k < length (emptyIndices emptyBoard)"
      and ri: "randomIndex r (emptyIndices emptyBoard) = Some (emptyIndices emptyBoard ! k)"
      by (auto simp: emptyBoard_indices)
    have "emptyIndices emptyBoard ! k \<in> set (emptyIndices emptyBoard)"
      using k by simp
    then have "emptyIndices emptyBoard ! k < 9" by (auto simp: emptyBoard_indices)
    with ri show ?thesis by (auto simp: randomMove_def b)
  qed
  show ?thesis
    using pol search random u
    by (cases "difficulty s") (auto simp: difficultyPolicy_def randomBudget_def)
qed

section \<open>A hard game that is played to its end\<close>

text \<open>The human clicks the nine cells in ascending order.\<close>

definition clicksFrom :: "nat \<Rightarrow> nat \<Rightarrow> (int \<times> real) list" where
  "clicksFrom n m = map (\<lambda>i. (int i, 0)) [n..<n + m]"

definition filled :: "nat \<Rightarrow> board \<Rightarrow> bool" where
  "filled n b \<longleftrightarrow> (\<forall>j<n. b ! j \<noteq> None)"

definition keeps :: "board \<Rightarrow> board \<Rightarrow> bool" where
  "keeps b b' \<longleftrightarrow> (\<forall>j. b ! j \<noteq> None \<longrightarrow> j < length b \<longrightarrow> b' ! j \<noteq> None)"

lemma keeps_refl: "keeps b b"
  by (simp add: keeps_def)

lemma keeps_setCell: "keeps b (setCell b idx p)"
proof (cases idx)
  case None
  then show ?thesis by (simp add: keeps_def setCell_def)
next
  case (Some a)
  have "b[a := Some p] ! j \<noteq> None" if "b ! j \<noteq> None" "j < length b" for j
    using that by (cases "a = j") simp_all
  with Some show ?thesis by (simp add: keeps_def setCell_def)
qed

lemma keeps_fire:
  assumes "hardInv s \<or> midInv s"
  shows "keeps (board s) (board (fireComputerMove r s))"
proof -
  let ?s1 = "s\<lparr>pendingComputerMoves := pendingComputerMoves s - 1\<rparr>"
  show ?thesis
  proof (cases "computerMove r ?s1")
    case (Inl e)
    then show ?thesis by (simp add: fireComputerMove_def keeps_refl)
  next
    case (Inr t)
    then have "board t = board s \<or> (\<exists>move. board t = setCell (board s) move MarkO)"
      by (auto simp: computerMove_def makeMove_fields split: if_splits sum.splits)
    with Inr show ?thesis
      by (auto simp: fireComputerMove_def keeps_refl keeps_setCell)
  qed
qed

lemma playRound_fills:
  assumes inv: "hardInv s" and i: "i < 9" and act: "gameActive (playRound (int i) r s)"
  shows "board (playRound (int i) r s) ! i \<noteq> None"
    and "keeps (board s) (board (playRound (int i) r s))"
proof -
  let ?c = "handleCellClick (int i) s"
  from inv have len: "length (board s) = 9" by (simp add: hardInv_def)
  have both: "board (playRound (int i) r s) ! i \<noteq> None
              \<and> keeps (board s) (board (playRound (int i) r s))"
  proof (cases "reviewMode s \<or> \<not> gameActive s
        \<or> cellAtInt (board s) (int i) \<noteq> Some None \<or> currentPlayer s \<noteq> MarkX")
    case True
    then have cs: "?c = s" by (simp add: handleCellClick_def)
    with inv have same: "playRound (int i) r s = s"
      by (simp add: playRound_def hardInv_def)
    with act inv True have "cellAtInt (board s) (int i) \<noteq> Some None"
      by (auto simp: hardInv_def)
    with len i have "board s ! i \<noteq> None" by (simp add: cellAtInt_def cellAt_def)
    with same show ?thesis by (simp add: keeps_refl)
  next
    case legal: False
    then have bc: "board ?c = (board s)[i := Some MarkX]"
      by (simp add: handleCellClick_def Let_def makeMove_fields setCell_def)
    have kc: "keeps (board s) (board ?c)"
      unfolding bc using keeps_setCell [of "board s" "Some i" MarkX] by (simp add: setCell_def)
    have ci: "board ?c ! i \<noteq> None" unfolding bc using len i by simp
    have lc: "length (board ?c) = 9" unfolding bc using len by simp
    from hardInv_click [OF inv, of "int i"] inv
    have m: "midInv ?c \<or> hardInv ?c" by auto
    show ?thesis
    proof (cases "0 < pendingComputerMoves ?c")
      case True
      from keeps_fire [of ?c r] m have kf: "keeps (board ?c) (board (fireComputerMove r ?c))"
        by blast
      from True have pr: "playRound (int i) r s = fireComputerMove r ?c"
        by (simp add: playRound_def)
      from kf ci lc i have "board (fireComputerMove r ?c) ! i \<noteq> None"
        by (simp add: keeps_def)
      moreover from kc kf lc len have "keeps (board s) (board (fireComputerMove r ?c))"
        by (auto simp: keeps_def)
      ultimately show ?thesis using pr by simp
    next
      case False
      then have "playRound (int i) r s = ?c" by (simp add: playRound_def)
      with ci kc show ?thesis by simp
    qed
  qed
  from both show "board (playRound (int i) r s) ! i \<noteq> None" by blast
  from both show "keeps (board s) (board (playRound (int i) r s))" by blast
qed

lemma playRound_over: "hardInv s \<Longrightarrow> \<not> gameActive s \<Longrightarrow> playRound i r s = s"
  by (simp add: playRound_def handleCellClick_def hardInv_def)

lemma play_over: "hardInv s \<Longrightarrow> \<not> gameActive s \<Longrightarrow> play ms s = s"
proof (induction ms)
  case Nil
  show ?case by simp
next
  case (Cons m ms)
  then show ?case by (cases m) (simp add: playRound_over)
qed

lemma play_fills:
  "hardInv s \<Longrightarrow> filled n (board s) \<Longrightarrow> n + m \<le> 9 \<Longrightarrow>
   gameActive (play (clicksFrom n m) s) \<Longrightarrow> filled (n + m) (board (play (clicksFrom n m) s))"
proof (induction m arbitrary: n s)
  case 0
  then show ?case by (simp add: clicksFrom_def)
next
  case (Suc m)
  let ?t = "playRound (int n) 0 s"
  have cf: "clicksFrom n (Suc m) = (int n, 0) # clicksFrom (Suc n) m"
    by (simp add: clicksFrom_def upt_conv_Cons)
  have invt: "hardInv ?t" using Suc.prems(1) by (rule hardInv_playRound)
  have actt: "gameActive ?t"
  proof (rule ccontr)
    assume na: "\<not> gameActive ?t"
    from play_over [OF invt na] have "play (clicksFrom n (Suc m)) s = ?t"
      by (simp add: cf)
    with Suc.prems(4) na show False by simp
  qed
  from Suc.prems(3) have n9: "n < 9" by simp
  from Suc.prems(1) have len: "length (board s) = 9" by (simp add: hardInv_def)
  from playRound_fills [OF Suc.prems(1) n9 actt]
  have here: "board ?t ! n \<noteq> None" and k: "keeps (board s) (board ?t)" by blast+
  have "filled (Suc n) (board ?t)"
    unfolding filled_def
  proof (intro allI impI)
    fix j assume "j < Suc n"
    then consider "j = n" | "j < n" by linarith
    then show "board ?t ! j \<noteq> None"
    proof cases
      case 1
      with here show ?thesis by simp
    next
      case 2
      with Suc.prems(2) have "board s ! j \<noteq> None" by (simp add: filled_def)
      with k 2 n9 len show ?thesis by (simp add: keeps_def)
    qed
  qed
  from Suc.IH [OF invt this] Suc.prems(3,4) show ?case by (simp add: cf)
qed

lemma nine_clicks_finish: "\<not> gameActive (play (clicksFrom 0 9) hardGame)"
proof
  let ?t = "play (clicksFrom 0 9) hardGame"
  assume act: "gameActive ?t"
  have inv: "hardInv ?t" using hardInv_hardGame by (rule hardInv_play)
  from play_fills [of hardGame 0 9] hardInv_hardGame act
  have f: "filled 9 (board ?t)" by (simp add: filled_def)
  from inv have len: "length (board ?t) = 9" by (simp add: hardInv_def)
  from f len have "boardFull (board ?t)"
    by (auto simp: boardFull_def filled_def list_all_length)
  with inv act show False by (simp add: hardInv_def)
qed

section \<open>Every move is written to an existing cell\<close>

lemma handleCellClick_index: "cellAtInt b idx = Some None \<Longrightarrow> nat idx < length b"
  by (simp add: cellAtInt_def cellAt_def split: if_splits)

lemma minimax_index_empty:
  assumes "indexOf (minimax b p) = Inr (Some k)"
  shows "k \<in> set (emptyIndices b)"
proof (cases "checkWinner MarkX b")
  case True
  with assms minimax_terminal(1) [of b p] show ?thesis by simp
next
  case nx: False
  show ?thesis
  proof (cases "checkWinner MarkO b")
    case True
    with assms nx minimax_terminal(2) [of b p] show ?thesis by simp
  next
    case no: False
    show ?thesis
    proof (cases "emptyIndices b = []")
      case True
      with assms nx no minimax_terminal(3) [of b p] show ?thesis by simp
    next
      case False
      from minimax_step [OF nx no False, of p] assms show ?thesis by auto
    qed
  qed
qed

lemma randomIndex_empty: "randomIndex r xs = Some k \<Longrightarrow> k \<in> set xs"
  by (auto simp: randomIndex_def Let_def split: if_splits)

lemma chooseMove_index:
  assumes "chooseMove r s = Inr (Some k, u)"
  shows "k < length (board s)"
proof -
  let ?b = "board s"
  have "k \<in> set (emptyIndices ?b)"
  proof (cases "findWinningMove MarkO ?b = - 1")
    case False
    with findWinningMove_cases [of MarkO ?b] obtain j where
      "findWinningMove MarkO ?b = int j" "winningCell MarkO ?b j" by blast
    with assms False show ?thesis
      by (simp add: chooseMove_eval_win winningCell_def)
  next
    case nowin: True
    show ?thesis
    proof (cases "findWinningMove MarkX ?b = - 1")
      case False
      with findWinningMove_cases [of MarkX ?b] obtain j where
        "findWinningMove MarkX ?b = int j" "winningCell MarkX ?b j" by blast
      with assms nowin False show ?thesis
        by (simp add: chooseMove_eval_block winningCell_def)
    next
      case True
      with nowin assms have "difficultyPolicy r s = Inr (Some k, u)"
        by (simp add: chooseMove_eval_policy)
      then have "randomIndex r (emptyIndices ?b) = Some k
                 \<or> indexOf (minimax ?b MarkO) = Inr (Some k)"
        by (auto simp: difficultyPolicy_def randomMove_def searchMove_def
              split: if_splits sum.splits)
      then show ?thesis
        using randomIndex_empty minimax_index_empty by blast
    qed
  qed
  then show ?thesis by (simp add: emptyIndices_set)
qed

section \<open>Concrete runs\<close>

text \<open>
  The states used below as concrete inputs are reached by the handlers from the fresh
  game; every random draw in them is \<open>0\<close>, which selects the first empty cell.
\<close>

lemma stateAfterUndo_run:
  "runEvents [CellClick 0, ComputerMoveFires 0, BackwardBtn] newGame = Some stateAfterUndo"
  by (simp add: stateAfterUndo_def newGame_def game_eval policy_eval)

lemma stateAfterUndo_reachable: "reachable stateAfterUndo"
  using runEvents_reachable [OF reachable_init stateAfterUndo_run] .

definition finishedTrace :: "event list" where
  "finishedTrace =
     [CellClick 0, ComputerMoveFires 0, CellClick 4, ComputerMoveFires 0,
      CellClick 6, ComputerMoveFires 0, CellClick 3]"

lemma finishedGame_run: "runEvents finishedTrace newGame = Some finishedGame"
  by (simp add: finishedTrace_def finishedGame_def newGame_def game_eval policy_eval)

lemma finishedGame_reachable: "reachable finishedGame"
  using runEvents_reachable [OF reachable_init finishedGame_run] .





text \<open>The finished game, reviewed one step forward.\<close>

definition reviewAtFirstMove :: game where
  "reviewAtFirstMove = handleEvent ForwardBtn (handleEvent ReviewBtn finishedGame)"

lemma reviewAtFirstMove_reachable: "reachable reviewAtFirstMove"
  unfolding reviewAtFirstMove_def
  by (intro reachable_step finishedGame_reachable) simp_all

lemma reviewAtFirstMove_facts:
  "reviewMode reviewAtFirstMove"
  "reviewIndex reviewAtFirstMove = 0"
  "board reviewAtFirstMove = [Some MarkX, None, None, None, None, None, None, None, None]"
  by (simp_all add: reviewAtFirstMove_def finishedGame_def newGame_def game_eval policy_eval)

section \<open>The claims\<close>

text \<open>
  Claim C1. Whatever cells the human clicks, in whatever order, in a game on hard
  difficulty that starts from the empty board with the human moving first and each
  scheduled reply of the computer running before the next click, the human mark never
  completes a line; so a game that is over was won by the computer or ended with a full
  board and no winner. Clicks that the handler ignores are part of the sequences.
\<close>

theorem hard_never_loses:
  "\<not> checkWinner MarkX (board (play ms hardGame))
   \<and> (gameActive (play ms hardGame)
        \<or> checkWinner MarkO (board (play ms hardGame))
        \<or> boardFull (board (play ms hardGame)))"
  using hardInv_play [OF hardInv_hardGame, of ms]
  by (auto simp: hardInv_def split: if_splits)

text \<open>
  The game in which the human clicks the cells 0 to 8 in turn is over at the end, and
  the human has not won it.
\<close>

theorem hard_never_loses_witness:
  "\<not> gameActive (play (clicksFrom 0 9) hardGame)
   \<and> \<not> checkWinner MarkX (board (play (clicksFrom 0 9) hardGame))
   \<and> (checkWinner MarkO (board (play (clicksFrom 0 9) hardGame))
        \<or> boardFull (board (play (clicksFrom 0 9) hardGame)))"
  using hard_never_loses [of "clicksFrom 0 9"] nine_clicks_finish by blast

text \<open>
  Claim C2. \<^verbatim>\<open>minimax\<close> always returns an object. On a board with a completed line
  of the human mark the object is \<^verbatim>\<open>{score: -10}\<close>; otherwise, with a completed line
  of the computer's mark, \<^verbatim>\<open>{score: 10}\<close>; otherwise, on a full board,
  \<^verbatim>\<open>{score: 0}\<close>; none of the three has an index. On every other board the object
  holds an empty cell \<open>k\<close> and the score of the recursive call after the move to
  \<open>k\<close>, unchanged; no empty cell has a score that is better for the player to move
  (greater for the computer, smaller for the human), and every empty cell with a lower
  index has a strictly worse one.
\<close>

theorem minimax_returns_optimal_move:
  "(\<exists>res. minimax b p = Inr (Some res))
   \<and> (checkWinner MarkX b \<longrightarrow> minimax b p = Inr (Some \<lparr>score = - 10, index = None\<rparr>))
   \<and> (\<not> checkWinner MarkX b \<and> checkWinner MarkO b \<longrightarrow>
         minimax b p = Inr (Some \<lparr>score = 10, index = None\<rparr>))
   \<and> (\<not> checkWinner MarkX b \<and> \<not> checkWinner MarkO b \<and> boardFull b \<longrightarrow>
         minimax b p = Inr (Some \<lparr>score = 0, index = None\<rparr>))
   \<and> (\<not> checkWinner MarkX b \<and> \<not> checkWinner MarkO b \<and> \<not> boardFull b \<longrightarrow>
         (\<exists>k \<in> set (emptyIndices b).
            minimax b p = Inr (Some \<lparr>score = childScore b p k, index = Some k\<rparr>)
            \<and> (\<forall>j \<in> set (emptyIndices b). \<not> betterFor p (childScore b p j) (childScore b p k))
            \<and> (\<forall>j \<in> set (emptyIndices b). j < k \<longrightarrow>
                  betterFor p (childScore b p k) (childScore b p j))))"
  using minimax_total [of b p] minimax_terminal [of b p]
    minimax_unfold [of b p, OF _ _ _ minimax_total]
  by (simp add: emptyIndices_Nil_boardFull)

text \<open>
  Four boards, one for each case. On the last one the computer is to move with the
  cells 7 and 8 empty: cell 7 completes its line (score 10), cell 8 leads to a draw
  (score 0).
\<close>

theorem minimax_returns_optimal_move_witness:
  "minimax [Some MarkX, Some MarkX, Some MarkX, Some MarkO, Some MarkO, None, None, None, None]
     MarkO = Inr (Some \<lparr>score = - 10, index = None\<rparr>)
   \<and> minimax [Some MarkO, Some MarkO, Some MarkO, Some MarkX, Some MarkX, None, Some MarkX, None, None]
     MarkX = Inr (Some \<lparr>score = 10, index = None\<rparr>)
   \<and> minimax [Some MarkX, Some MarkO, Some MarkX, Some MarkX, Some MarkO, Some MarkO,
        Some MarkO, Some MarkX, Some MarkX]
     MarkO = Inr (Some \<lparr>score = 0, index = None\<rparr>)
   \<and> minimax [Some MarkX, Some MarkO, Some MarkX, Some MarkX, Some MarkO, Some MarkO,
        Some MarkO, None, None]
     MarkO = Inr (Some \<lparr>score = 10, index = Some 7\<rparr>)"
proof -
  let ?bx = "[Some MarkX, Some MarkX, Some MarkX, Some MarkO, Some MarkO, None, None, None, None]"
  let ?bo = "[Some MarkO, Some MarkO, Some MarkO, Some MarkX, Some MarkX, None, Some MarkX, None, None]"
  let ?bd = "[Some MarkX, Some MarkO, Some MarkX, Some MarkX, Some MarkO, Some MarkO,
              Some MarkO, Some MarkX, Some MarkX]"
  let ?bn = "[Some MarkX, Some MarkO, Some MarkX, Some MarkX, Some MarkO, Some MarkO,
              Some MarkO, None, None]"
  have x: "checkWinner MarkX ?bx" by (simp add: checkWinner_nine)
  have o: "\<not> checkWinner MarkX ?bo \<and> checkWinner MarkO ?bo" by (simp add: checkWinner_nine)
  have d: "\<not> checkWinner MarkX ?bd \<and> \<not> checkWinner MarkO ?bd \<and> boardFull ?bd"
    by (simp add: checkWinner_nine boardFull_nine)
  have n: "\<not> checkWinner MarkX ?bn \<and> \<not> checkWinner MarkO ?bn \<and> \<not> boardFull ?bn"
    by (simp add: checkWinner_nine boardFull_nine)
  have e: "emptyIndices ?bn = [7, 8]" by (simp add: emptyIndices_nine)
  have m7: "minimax [Some MarkX, Some MarkO, Some MarkX, Some MarkX, Some MarkO, Some MarkO,
              Some MarkO, Some MarkO, None] MarkX = Inr (Some \<lparr>score = 10, index = None\<rparr>)"
    by code_simp
  have m8: "minimax [Some MarkX, Some MarkO, Some MarkX, Some MarkX, Some MarkO, Some MarkO,
              Some MarkO, None, Some MarkO] MarkX = Inr (Some \<lparr>score = 0, index = Some 7\<rparr>)"
    by code_simp
  have c7: "childScore ?bn MarkO 7 = 10"
    by (simp add: childScore_def mscore_def update_nine m7)
  have c8: "childScore ?bn MarkO 8 = 0"
    by (simp add: childScore_def mscore_def update_nine m8)
  from minimax_returns_optimal_move [of ?bn MarkO] n obtain k where
    k: "k \<in> set (emptyIndices ?bn)"
    and r: "minimax ?bn MarkO = Inr (Some \<lparr>score = childScore ?bn MarkO k, index = Some k\<rparr>)"
    and opt: "\<forall>j \<in> set (emptyIndices ?bn).
                \<not> betterFor MarkO (childScore ?bn MarkO j) (childScore ?bn MarkO k)"
    by blast
  have "k = 7"
  proof (rule ccontr)
    assume "k \<noteq> 7"
    with k e have "k = 8" by simp
    with opt e c7 c8 show False by (simp add: betterFor_def)
  qed
  with r c7 have rn: "minimax ?bn MarkO = Inr (Some \<lparr>score = 10, index = Some 7\<rparr>)" by simp
  from minimax_returns_optimal_move [of ?bx MarkO] x
    minimax_returns_optimal_move [of ?bo MarkX] o
    minimax_returns_optimal_move [of ?bd MarkO] d rn
  show ?thesis by blast
qed

text \<open>
  Claim C3 fails on the code. After a click, the computer's reply and one undo, the game
  is live with one move on the undo stack and the undone reply in the redo queue. A
  second undo enqueues the human's move behind the reply; the redo that follows takes
  the front of the queue, the reply, and restores its snapshot: the board, the active
  mark and the random-move counter all differ from those before the undo.
\<close>

theorem undo_redo_not_roundtrip:
  "reachable stateAfterUndo \<and> \<not> reviewMode stateAfterUndo \<and> gameActive stateAfterUndo
   \<and> moveHistory stateAfterUndo \<noteq> []
   \<and> board stateAfterUndo = [Some MarkX, None, None, None, None, None, None, None, None]
   \<and> board (moveForward (moveBackward stateAfterUndo))
       = [Some MarkX, Some MarkO, None, None, None, None, None, None, None]
   \<and> currentPlayer stateAfterUndo = MarkO
   \<and> currentPlayer (moveForward (moveBackward stateAfterUndo)) = MarkX
   \<and> aiRandomMovesUsed stateAfterUndo = 0
   \<and> aiRandomMovesUsed (moveForward (moveBackward stateAfterUndo)) = 1"
  using stateAfterUndo_reachable
  by (simp add: stateAfterUndo_eq game_eval)

text \<open>
  Claim C4. If some empty cell completes a line for the computer, \<^verbatim>\<open>computerMove\<close>
  chooses the lowest such cell and leaves the random-move counter as it was, whatever
  the difficulty and the counter; otherwise, if some empty cell would complete a line
  for the human, it chooses the lowest such cell, again with the counter unchanged; only
  when there is neither does the difficulty decide: a random empty cell while the counter
  is below the budget (0 on hard, 1 on medium, 2 on easy), the search otherwise.
\<close>

theorem chooseMove_win_block_first:
  "(winningCell MarkO (board s) k \<and> (\<forall>j < k. \<not> winningCell MarkO (board s) j)
      \<longrightarrow> chooseMove r s = Inr (Some k, aiRandomMovesUsed s))
   \<and> ((\<forall>j. \<not> winningCell MarkO (board s) j)
        \<and> winningCell MarkX (board s) k \<and> (\<forall>j < k. \<not> winningCell MarkX (board s) j)
      \<longrightarrow> chooseMove r s = Inr (Some k, aiRandomMovesUsed s))
   \<and> ((\<forall>j. \<not> winningCell MarkO (board s) j) \<and> (\<forall>j. \<not> winningCell MarkX (board s) j)
      \<longrightarrow> chooseMove r s = difficultyPolicy r s)"
  using chooseMove_win chooseMove_block chooseMove_policy by blast

text \<open>
  Three boards with the computer to move: on the first, cell 2 wins for the computer
  and cell 5 would block the human; on the second, cell 2 blocks; on the third there
  is nothing to win or to block, and on medium difficulty with the counter at 0 the
  draw \<open>0\<close> takes the first empty cell.
\<close>

theorem chooseMove_win_block_first_witness:
  "chooseMove 0
     (newGame\<lparr>board := [Some MarkO, Some MarkO, None, Some MarkX, Some MarkX, None, None, None, None]\<rparr>)
     = Inr (Some 2, 0)
   \<and> chooseMove 0
     (newGame\<lparr>board := [Some MarkX, Some MarkX, None, Some MarkO, None, None, None, None, None]\<rparr>)
     = Inr (Some 2, 0)
   \<and> chooseMove 0
     (newGame\<lparr>board := [Some MarkX, None, None, None, None, None, None, None, None]\<rparr>)
     = Inr (Some 1, 1)"
proof -
  let ?w = "[Some MarkO, Some MarkO, None, Some MarkX, Some MarkX, None, None, None, None]"
  let ?b = "[Some MarkX, Some MarkX, None, Some MarkO, None, None, None, None, None]"
  let ?n = "[Some MarkX, None, None, None, None, None, None, None, None]"
  have w1: "winningCell MarkO ?w 2"
    by (simp add: winningCell_def emptyIndices_nine update_nine checkWinner_nine)
  have w2: "\<forall>j<2. \<not> winningCell MarkO ?w j"
    by (auto simp: winningCell_def emptyIndices_nine)
  have b0: "\<forall>j. \<not> winningCell MarkO ?b j"
    by (simp add: findWinningMove_none [symmetric] findWinningMove_def emptyIndices_nine
          update_nine checkWinner_nine)
  have b1: "winningCell MarkX ?b 2"
    by (simp add: winningCell_def emptyIndices_nine update_nine checkWinner_nine)
  have b2: "\<forall>j<2. \<not> winningCell MarkX ?b j"
    by (auto simp: winningCell_def emptyIndices_nine)
  have n0: "\<forall>j. \<not> winningCell MarkO ?n j"
    by (simp add: findWinningMove_none [symmetric] findWinningMove_def emptyIndices_nine
          update_nine checkWinner_nine)
  have n1: "\<forall>j. \<not> winningCell MarkX ?n j"
    by (simp add: findWinningMove_none [symmetric] findWinningMove_def emptyIndices_nine
          update_nine checkWinner_nine)
  have p: "difficultyPolicy 0 (newGame\<lparr>board := ?n\<rparr>) = Inr (Some 1, 1)"
    by (simp add: difficultyPolicy_def randomBudget_def randomMove_def randomIndex_def
          newGame_def emptyIndices_nine)
  from chooseMove_win_block_first [of "newGame\<lparr>board := ?w\<rparr>" 2 0] w1 w2
  have "chooseMove 0 (newGame\<lparr>board := ?w\<rparr>) = Inr (Some 2, 0)"
    by (simp add: newGame_def)
  moreover from chooseMove_win_block_first [of "newGame\<lparr>board := ?b\<rparr>" 2 0] b0 b1 b2
  have "chooseMove 0 (newGame\<lparr>board := ?b\<rparr>) = Inr (Some 2, 0)"
    by (simp add: newGame_def)
  moreover from chooseMove_win_block_first [of "newGame\<lparr>board := ?n\<rparr>" 0 0] n0 n1 p
  have "chooseMove 0 (newGame\<lparr>board := ?n\<rparr>) = Inr (Some 1, 1)"
    by simp
  ultimately show ?thesis by blast
qed

text \<open>
  Claim C5 fails on the code at review index 0. In review mode \<^verbatim>\<open>moveBackward\<close>
  steps back only while the index is greater than 0, so from the first move it does
  nothing: the index stays 0 and the board stays the snapshot of the first move, although
  \<^verbatim>\<open>updateNavigationButtons\<close> leaves the backward button enabled there and
  \<^verbatim>\<open>displayReviewMove\<close> has a branch for the empty board at the start of the game.
\<close>

theorem review_backward_stuck_at_first_move:
  "reachable reviewAtFirstMove \<and> reviewMode reviewAtFirstMove
   \<and> reviewIndex reviewAtFirstMove = 0 \<and> \<not> backwardBtnDisabled reviewAtFirstMove
   \<and> moveBackward reviewAtFirstMove = reviewAtFirstMove
   \<and> reviewIndex (moveBackward reviewAtFirstMove) = 0
   \<and> board (moveBackward reviewAtFirstMove)
       = [Some MarkX, None, None, None, None, None, None, None, None]"
  using reviewAtFirstMove_reachable reviewAtFirstMove_facts
  by (simp add: moveBackward_def backwardBtnDisabled_def)

text \<open>
  Claim C6 fails on the code: \<^verbatim>\<open>resetGame\<close> cancels no callback and leaves the game
  active, and \<^verbatim>\<open>computerMove\<close> checks nothing but \<^verbatim>\<open>gameActive\<close>. After a click
  and a reset the callback of the click is still pending, and when it runs it puts the
  computer's mark on the fresh board.
\<close>

theorem reset_keeps_pending_move:
  "reachable (resetGame (handleCellClick 0 newGame))
   \<and> enabled (ComputerMoveFires 0) (resetGame (handleCellClick 0 newGame))
   \<and> board (resetGame (handleCellClick 0 newGame))
       = [None, None, None, None, None, None, None, None, None]
   \<and> board (fireComputerMove 0 (resetGame (handleCellClick 0 newGame)))
       = [Some MarkO, None, None, None, None, None, None, None, None]"
proof -
  have "runEvents [CellClick 0, ResetBtn] newGame = Some (resetGame (handleCellClick 0 newGame))"
    by simp
  from runEvents_reachable [OF reachable_init this]
  have "reachable (resetGame (handleCellClick 0 newGame))" .
  then show ?thesis
    by (simp add: newGame_def game_eval policy_eval)
qed

text \<open>
  Claim C6 as the code has it. A pending callback that runs just after a reset places
  the computer's mark in one cell of the fresh board; and whenever the game is not
  active, a pending callback that runs leaves the board as it is.
\<close>

theorem pending_move_applies_after_reset:
  "(enabled (ComputerMoveFires r) (resetGame s) \<longrightarrow>
      (\<exists>k<9. board (fireComputerMove r (resetGame s)) = emptyBoard[k := Some MarkO]))
   \<and> (\<not> gameActive s \<longrightarrow> board (fireComputerMove r s) = board s)"
proof (intro conjI impI)
  assume en: "enabled (ComputerMoveFires r) (resetGame s)"
  let ?s1 = "(resetGame s)\<lparr>pendingComputerMoves := pendingComputerMoves (resetGame s) - 1\<rparr>"
  have b: "board ?s1 = emptyBoard" and u: "aiRandomMovesUsed ?s1 = 0"
    and act: "gameActive ?s1"
    by (simp_all add: resetGame_def)
  from en have r: "0 \<le> r" "r < 1" by simp_all
  from chooseMove_emptyBoard [OF b r u] obtain k used where
    k: "k < 9" and c: "chooseMove r ?s1 = Inr (Some k, used)" by blast
  have "fireComputerMove r (resetGame s) = makeMove (Some k) MarkO (?s1\<lparr>aiRandomMovesUsed := used\<rparr>)"
    using act c by (simp add: fireComputerMove_def computerMove_def Let_def)
  then have "board (fireComputerMove r (resetGame s)) = emptyBoard[k := Some MarkO]"
    using b by (simp add: makeMove_fields setCell_def)
  with k show "\<exists>k<9. board (fireComputerMove r (resetGame s)) = emptyBoard[k := Some MarkO]"
    by blast
next
  assume "\<not> gameActive s"
  then show "board (fireComputerMove r s) = board s"
    by (simp add: fireComputerMove_def computerMove_def Let_def)
qed

theorem pending_move_applies_after_reset_witness:
  "enabled (ComputerMoveFires 0) (resetGame (handleCellClick 0 newGame))
   \<and> (\<exists>k<9. board (fireComputerMove 0 (resetGame (handleCellClick 0 newGame)))
               = emptyBoard[k := Some MarkO])
   \<and> \<not> gameActive finishedGame
   \<and> board (fireComputerMove 0 finishedGame) = board finishedGame"
proof -
  have en: "enabled (ComputerMoveFires 0) (resetGame (handleCellClick 0 newGame))"
    by (simp add: newGame_def game_eval)
  have na: "\<not> gameActive finishedGame" by (simp add: finishedGame_facts)
  from pending_move_applies_after_reset [of 0 "handleCellClick 0 newGame"] en
    pending_move_applies_after_reset [of 0 finishedGame] na
  show ?thesis by blast
qed

text \<open>
  Claim C7. \<^verbatim>\<open>makeMove\<close> appends the new move record to the full log and to the undo
  stack and empties the redo queue, in every state: after it the redo queue is empty
  and the last element of the full log is the record of the move just made.
\<close>

theorem makeMove_commit:
  "redoHistory (makeMove idx player s) = []
   \<and> allMoves (makeMove idx player s) \<noteq> []
   \<and> last (allMoves (makeMove idx player s))
       = \<lparr>mv_index = idx, mv_player = player, mv_board = setCell (board s) idx player,
          mv_aiRandomMovesUsed = aiRandomMovesUsed s\<rparr>
   \<and> allMoves (makeMove idx player s)
       = allMoves s @ [\<lparr>mv_index = idx, mv_player = player,
                         mv_board = setCell (board s) idx player,
                         mv_aiRandomMovesUsed = aiRandomMovesUsed s\<rparr>]"
  by (simp add: makeMove_fields)

text \<open>A move made after an undo, when the redo queue holds the undone move.\<close>

theorem makeMove_commit_witness:
  "redoHistory stateAfterUndo \<noteq> []
   \<and> redoHistory (makeMove (Some 4) MarkO stateAfterUndo) = []
   \<and> last (allMoves (makeMove (Some 4) MarkO stateAfterUndo))
       = \<lparr>mv_index = Some 4, mv_player = MarkO,
          mv_board = [Some MarkX, None, None, None, Some MarkO, None, None, None, None],
          mv_aiRandomMovesUsed = 0\<rparr>"
  using makeMove_commit [of "Some 4" MarkO stateAfterUndo]
  by (simp add: stateAfterUndo_eq setCell_def update_nine)

text \<open>
  Claim C8. In every reachable state a click is ignored, the whole state unchanged,
  when review mode is on, when the game is not active, when the index is below 0 or
  above 8, or when the cell holds a mark. The handler is a total function: a read
  outside the board yields \<^verbatim>\<open>undefined\<close> and nothing throws.
\<close>

theorem handleCellClick_noop:
  assumes "reachable s"
    and "reviewMode s \<or> \<not> gameActive s \<or> idx < 0 \<or> 8 < idx
         \<or> (\<exists>m. cellAtInt (board s) idx = Some (Some m))"
  shows "handleCellClick idx s = s"
proof -
  from reachable_boardsOk [OF assms(1)] have len: "length (board s) = 9"
    by (simp add: boardsOk_def)
  have "cellAtInt (board s) idx \<noteq> Some None" if "idx < 0 \<or> 8 < idx"
    using that len by (auto simp: cellAtInt_def cellAt_def)
  with assms(2) have "reviewMode s \<or> \<not> gameActive s \<or> cellAtInt (board s) idx \<noteq> Some None"
    by auto
  then show ?thesis by (rule handleCellClick_ignored)
qed

text \<open>
  An occupied cell and two indices outside the board in a live game, an empty cell in
  a finished game, and an empty cell in review mode.
\<close>

theorem handleCellClick_noop_witness:
  "reachable stateAfterUndo \<and> gameActive stateAfterUndo
   \<and> cellAtInt (board stateAfterUndo) 0 = Some (Some MarkX)
   \<and> handleCellClick 0 stateAfterUndo = stateAfterUndo
   \<and> handleCellClick 9 stateAfterUndo = stateAfterUndo
   \<and> handleCellClick (- 1) stateAfterUndo = stateAfterUndo
   \<and> reachable finishedGame \<and> \<not> gameActive finishedGame
   \<and> cellAtInt (board finishedGame) 5 = Some None
   \<and> handleCellClick 5 finishedGame = finishedGame
   \<and> reachable reviewAtFirstMove \<and> reviewMode reviewAtFirstMove
   \<and> handleCellClick 5 reviewAtFirstMove = reviewAtFirstMove"
proof -
  have a: "gameActive stateAfterUndo"
    and c: "cellAtInt (board stateAfterUndo) 0 = Some (Some MarkX)"
    by (simp_all add: stateAfterUndo_eq cellAtInt_def cellAt_def)
  have f: "\<not> gameActive finishedGame" and fc: "cellAtInt (board finishedGame) 5 = Some None"
    by (simp_all add: finishedGame_facts cellAtInt_def cellAt_def)
  from handleCellClick_noop [OF stateAfterUndo_reachable, of 0] c
  have "handleCellClick 0 stateAfterUndo = stateAfterUndo" by simp
  moreover from handleCellClick_noop [OF stateAfterUndo_reachable, of 9]
  have "handleCellClick 9 stateAfterUndo = stateAfterUndo" by simp
  moreover from handleCellClick_noop [OF stateAfterUndo_reachable, of "- 1"]
  have "handleCellClick (- 1) stateAfterUndo = stateAfterUndo" by simp
  moreover from handleCellClick_noop [OF finishedGame_reachable, of 5] f
  have "handleCellClick 5 finishedGame = finishedGame" by simp
  moreover from handleCellClick_noop [OF reviewAtFirstMove_reachable, of 5]
    reviewAtFirstMove_facts(1)
  have "handleCellClick 5 reviewAtFirstMove = reviewAtFirstMove" by simp
  ultimately show ?thesis
    using a c f fc stateAfterUndo_reachable finishedGame_reachable
      reviewAtFirstMove_reachable reviewAtFirstMove_facts(1)
    by simp
qed



text \<open>
  Claim C10. In every reachable state the array of the undo stack, oldest move first,
  equals the full log \<^verbatim>\<open>allMoves\<close>: every handler that changes one changes the other
  in the same way.
\<close>

theorem undo_stack_is_full_log:
  "reachable s \<Longrightarrow> moveHistory s = allMoves s"
  using reachable_historyOk by (simp add: historyOk_def)

text \<open>After a click, the reply and one undo both hold the human's move alone.\<close>

theorem undo_stack_is_full_log_witness:
  "reachable stateAfterUndo \<and> moveHistory stateAfterUndo = allMoves stateAfterUndo
   \<and> length (allMoves stateAfterUndo) = 1"
  using undo_stack_is_full_log [OF stateAfterUndo_reachable] stateAfterUndo_reachable
  by (simp add: stateAfterUndo_eq)

end
